theory Spec2Isabelle
  imports Complex_Main
begin

section \<open>Data model\<close>

text \<open>
  Offsets, counts and sizes are JavaScript numbers holding integers; they are modelled
  as \<open>int\<close>, so that a subtraction can go negative exactly as it does in the source.

  A protocol range is what the coverage collector reports for one block of a function:
  \<^verbatim>\<open>{startOffset, endOffset, count}\<close>.
\<close>

record coverage =
  startOffset :: int
  endOffset :: int
  count :: int

text \<open>The accumulator \<^verbatim>\<open>{used, unused}\<close> that \<^verbatim>\<open>_add\<close> and \<^verbatim>\<open>findUsedAndUnused\<close> return.\<close>

record usedUnused =
  used :: int
  unused :: int

text \<open>
  The objects that \<^verbatim>\<open>computeWaste\<close> pushes onto its flat list:
  \<^verbatim>\<open>Object.assign({isUsed, span, used, unused}, range)\<close>. Such an object is passed where a
  \<^verbatim>\<open>{used, unused}\<close> pair is expected, hence the record extension.
\<close>

record range = usedUnused +
  isUsed :: bool
  span :: int
  startOffset :: int
  endOffset :: int
  count :: int

section \<open>The coverage decomposer\<close>

text \<open>\<^verbatim>\<open>_add(objA, objB)\<close>: only the fields \<^verbatim>\<open>used\<close> and \<^verbatim>\<open>unused\<close> of the arguments are read.\<close>

definition add :: "('a usedUnused_scheme) \<Rightarrow> ('b usedUnused_scheme) \<Rightarrow> usedUnused" where
  "add objA objB = \<lparr>used = used objA + used objB, unused = unused objA + unused objB\<rparr>"

text \<open>
  The loop
  \<^verbatim>\<open>while (endIndex < ranges.length && ranges[endIndex].startOffset < firstRange.endOffset) endIndex++\<close>
  as a function of the loop variable; the result is the value of \<^verbatim>\<open>endIndex\<close> at exit.
\<close>

function scanEndIndex :: "range list \<Rightarrow> range \<Rightarrow> nat \<Rightarrow> nat" where
  "scanEndIndex ranges firstRange endIndex =
     (if endIndex < length ranges \<and> startOffset (ranges ! endIndex) < endOffset firstRange
      then scanEndIndex ranges firstRange (endIndex + 1)
      else endIndex)"
  by pat_completeness auto
termination
  by (relation "measure (\<lambda>(ranges, firstRange, endIndex). length ranges - endIndex)") auto

declare scanEndIndex.simps [simp del]

lemma scanEndIndex_ge: "endIndex \<le> scanEndIndex ranges firstRange endIndex"
proof (induction ranges firstRange endIndex rule: scanEndIndex.induct)
  case (1 ranges firstRange endIndex)
  show ?case
  proof (cases "endIndex < length ranges \<and> startOffset (ranges ! endIndex) < endOffset firstRange")
    case True
    with "1.IH" have "endIndex + 1 \<le> scanEndIndex ranges firstRange (endIndex + 1)"
      by simp
    with True show ?thesis
      by (subst scanEndIndex.simps) simp
  next
    case False
    then show ?thesis
      by (subst scanEndIndex.simps) auto
  qed
qed

text \<open>
  \<^verbatim>\<open>spanningRanges.reduce((max, next) => max.endOffset >= next.endOffset ? max : next)\<close>,
  a reduction without initial value: it starts from element 0. It is only called on a list
  that holds \<^verbatim>\<open>secondRange\<close> (lemma \<open>spanningRanges_nonempty\<close> below), so the
  \<^verbatim>\<open>TypeError\<close> that \<^verbatim>\<open>reduce\<close> raises on an empty array cannot occur.
\<close>

definition maxByEnd :: "range \<Rightarrow> range \<Rightarrow> range" where
  "maxByEnd mx nxt = (if endOffset mx \<ge> endOffset nxt then mx else nxt)"

definition latestEnd :: "range list \<Rightarrow> int" where
  "latestEnd spanningRanges = endOffset (foldl maxByEnd (hd spanningRanges) (tl spanningRanges))"

text \<open>
  \<^verbatim>\<open>(restOfRanges[0] && restOfRanges[0].startOffset) || firstRange.endOffset\<close>:
  \<^verbatim>\<open>restOfRanges[0]\<close> is \<^verbatim>\<open>undefined\<close> on an empty array, and the number 0 is falsy too.
\<close>

definition nextStart :: "range list \<Rightarrow> range \<Rightarrow> int" where
  "nextStart restOfRanges firstRange =
     (case restOfRanges of
        [] \<Rightarrow> endOffset firstRange
      | r # _ \<Rightarrow> if startOffset r \<noteq> 0 then startOffset r else endOffset firstRange)"

text \<open>
  \<^verbatim>\<open>findUsedAndUnused(ranges)\<close>. \<^verbatim>\<open>ranges.slice(1)\<close> is \<open>drop 1\<close>,
  \<^verbatim>\<open>ranges.slice(1, endIndex)\<close> is \<open>take (endIndex - 1) (drop 1 ranges)\<close> and
  \<^verbatim>\<open>ranges.slice(endIndex)\<close> is \<open>drop endIndex ranges\<close>. The single-element case
  returns the range object itself, of which only \<^verbatim>\<open>used\<close> and \<^verbatim>\<open>unused\<close> are kept.
\<close>

function findUsedAndUnused :: "range list \<Rightarrow> usedUnused" where
  "findUsedAndUnused ranges =
     (if length ranges = 0 then \<lparr>used = 0, unused = 0\<rparr>
      else if length ranges = 1 then usedUnused.truncate (ranges ! 0)
      else
        let firstRange = ranges ! 0;
            secondRange = ranges ! 1
        in
          if startOffset secondRange \<ge> endOffset firstRange then
            add (add firstRange
                     \<lparr>used = startOffset secondRange - endOffset firstRange, unused = 0\<rparr>)
                (findUsedAndUnused (drop 1 ranges))
          else
            let endIndex = scanEndIndex ranges firstRange 1;
                spanningRanges = take (endIndex - 1) (drop 1 ranges);
                restOfRanges = drop endIndex ranges
            in
              if isUsed firstRange then
                let earliestStart = startOffset secondRange;
                    leftEdge = \<lparr>used = earliestStart - startOffset firstRange, unused = 0\<rparr>;
                    rightEdge = \<lparr>used = nextStart restOfRanges firstRange
                                         - latestEnd spanningRanges, unused = 0\<rparr>;
                    inner = findUsedAndUnused spanningRanges;
                    rest = findUsedAndUnused restOfRanges
                in add (add leftEdge rightEdge) (add inner rest)
              else
                add firstRange (findUsedAndUnused restOfRanges))"
  by pat_completeness auto
termination
proof (relation "measure length", goal_cases)
  case 1
  show ?case by simp
next
  case (2 ranges firstRange secondRange)
  then show ?case by simp
next
  case (3 ranges firstRange secondRange endIndex spanningRanges restOfRanges)
  then have "length (take (endIndex - 1) (drop 1 ranges)) < length ranges"
    by (cases ranges) (simp_all add: min_def)
  with 3 show ?case by simp
next
  case (4 ranges firstRange secondRange endIndex spanningRanges restOfRanges)
  have "1 \<le> scanEndIndex ranges firstRange 1"
    by (rule scanEndIndex_ge)
  with 4 show ?case by simp
next
  case (5 ranges firstRange secondRange endIndex spanningRanges restOfRanges)
  have "1 \<le> scanEndIndex ranges firstRange 1"
    by (rule scanEndIndex_ge)
  with 5 show ?case by simp
qed

declare findUsedAndUnused.simps [simp del]

section \<open>JavaScript numbers\<close>

text \<open>
  The ratio, the percentage and the byte estimate are JavaScript numbers, that is IEEE 754
  doubles: they need not be integers and need not be finite, and a division by zero yields
  \<^verbatim>\<open>NaN\<close> or an infinity, it does not raise. A finite double is modelled by the rational
  number it stands for; the three special values are explicit. Negative zero is identified
  with zero, from which JavaScript's \<^verbatim>\<open>==\<close>, \<^verbatim>\<open>>\<close> and \<^verbatim>\<open>||\<close> do not tell it apart.
\<close>

datatype jsnum = Fin rat | PosInf | NegInf | NaN

subsection \<open>Rounding to the nearest double\<close>

text \<open>
  A division or a multiplication of doubles yields the double nearest to the exact result,
  a tie going to the double with the even significand, and an infinity beyond the largest
  double. A positive double is \<open>m * 2 ^ e\<close> with an integer \<open>m < 2 ^ 53\<close> and
  \<open>-1074 \<le> e \<le> 971\<close>.

  The number of binary digits of a positive integer:
\<close>

function bitLength :: "int \<Rightarrow> int" where
  "bitLength n = (if n \<le> 0 then 0 else 1 + bitLength (n div 2))"
  by pat_completeness auto
termination
  by (relation "measure nat") auto

declare bitLength.simps [simp del]

text \<open>
  The exponent of the last place of the double nearest to a positive rational \<open>x\<close>: the
  \<open>e\<close> with \<open>2 ^ 52 \<le> x / 2 ^ e < 2 ^ 53\<close>, found from the lengths of numerator and
  denominator, and not below \<open>-1074\<close>, the last place of the subnormal doubles.
\<close>

definition lastPlace :: "rat \<Rightarrow> int" where
  "lastPlace x =
     (case quotient_of x of (p, q) \<Rightarrow>
        let e0 = bitLength p - bitLength q - 53;
            e1 = (if x / 2 powi e0 < 2 ^ 53 then e0 else e0 + 1)
        in max e1 (- 1074))"

text \<open>Rounding to the nearest integer, a tie going to the even one.\<close>

definition roundHalfEven :: "rat \<Rightarrow> int" where
  "roundHalfEven y =
     (let n = \<lfloor>y\<rfloor>; f = y - of_int n
      in if f < 1 / 2 then n
         else if 1 / 2 < f then n + 1
         else if even n then n else n + 1)"

text \<open>
  The double nearest to a positive rational; the rounded value overflows to
  \<^verbatim>\<open>Infinity\<close> when it reaches \<open>2 ^ 1024\<close>.
\<close>

definition toDoublePos :: "rat \<Rightarrow> jsnum" where
  "toDoublePos x =
     (let e = lastPlace x; m = roundHalfEven (x / 2 powi e)
      in if 971 < e \<or> (e = 971 \<and> 2 ^ 53 \<le> m) then PosInf
         else Fin (of_int m * 2 powi e))"

definition jsNegate :: "jsnum \<Rightarrow> jsnum" where
  "jsNegate x =
     (case x of Fin r \<Rightarrow> Fin (- r) | PosInf \<Rightarrow> NegInf | NegInf \<Rightarrow> PosInf | NaN \<Rightarrow> NaN)"

definition toDouble :: "rat \<Rightarrow> jsnum" where
  "toDouble x =
     (if x = 0 then Fin 0
      else if 0 < x then toDoublePos x
      else jsNegate (toDoublePos (- x)))"

text \<open>
  The offsets, counts and sizes of the model are integers, and such an integer is a
  JavaScript number only if a double holds it exactly, as every integer up to \<open>2 ^ 53\<close> in
  magnitude is.
\<close>

definition isDouble :: "int \<Rightarrow> bool" where
  "isDouble k = (toDouble (of_int k) = Fin (of_int k))"

subsection \<open>The operations of \<^verbatim>\<open>computeWaste\<close>\<close>

text \<open>
  \<^verbatim>\<open>a / b\<close> on two integer-valued numbers: the exact quotient rounded to the nearest
  double. On an integer that no double holds there is no JavaScript operation to model;
  the result is then left exact, here and in the product below.
\<close>

definition jsDivide :: "int \<Rightarrow> int \<Rightarrow> jsnum" where
  "jsDivide a b =
     (if b = 0 then (if a = 0 then NaN else if a > 0 then PosInf else NegInf)
      else if isDouble a \<and> isDouble b then toDouble (of_int a / of_int b)
      else Fin (of_int a / of_int b))"

text \<open>\<^verbatim>\<open>x || 0\<close>: the falsy numbers are \<^verbatim>\<open>NaN\<close> and zero.\<close>

definition orZero :: "jsnum \<Rightarrow> jsnum" where
  "orZero x = (if x = NaN \<or> x = Fin 0 then Fin 0 else x)"

text \<open>
  \<^verbatim>\<open>k * x\<close> for an integer-valued \<^verbatim>\<open>k\<close>: the exact product rounded to the nearest double;
  zero times an infinity is \<^verbatim>\<open>NaN\<close>.
\<close>

definition jsTimes :: "int \<Rightarrow> jsnum \<Rightarrow> jsnum" where
  "jsTimes k x =
     (case x of
        Fin r \<Rightarrow> (if isDouble k then toDouble (of_int k * r) else Fin (of_int k * r))
      | PosInf \<Rightarrow> (if k = 0 then NaN else if k > 0 then PosInf else NegInf)
      | NegInf \<Rightarrow> (if k = 0 then NaN else if k > 0 then NegInf else PosInf)
      | NaN \<Rightarrow> NaN)"

text \<open>
  \<^verbatim>\<open>Math.round(x)\<close>: the nearest integer, a tie going up; \<^verbatim>\<open>NaN\<close> and the infinities
  are returned as they are. The result is exact: a double with a fractional part is below
  \<open>2 ^ 52\<close> in magnitude, where every integer is a double.
\<close>

definition Math_round :: "jsnum \<Rightarrow> jsnum" where
  "Math_round x = (case x of Fin r \<Rightarrow> Fin (of_int \<lfloor>r + 1 / 2\<rfloor>) | _ \<Rightarrow> x)"

text \<open>\<^verbatim>\<open>a > b\<close>: false as soon as one side is \<^verbatim>\<open>NaN\<close>.\<close>

fun jsGreater :: "jsnum \<Rightarrow> jsnum \<Rightarrow> bool" where
  "jsGreater (Fin x) (Fin y) = (x > y)"
| "jsGreater PosInf (Fin y) = True"
| "jsGreater PosInf NegInf = True"
| "jsGreater (Fin x) NegInf = True"
| "jsGreater _ _ = False"

section \<open>The waste aggregator\<close>

text \<open>
  A script as the coverage collector supplies it,
  \<^verbatim>\<open>{url, functions: [{ranges: [{startOffset, endOffset, count}]}]}\<close>, a network record
  \<^verbatim>\<open>{url, transferSize}\<close>, and the object that \<^verbatim>\<open>computeWaste\<close> returns.
\<close>

record func =
  ranges :: "coverage list"

record script =
  url :: string
  "functions" :: "func list"

record networkRecord =
  url :: string
  transferSize :: int

record wasteResult =
  url :: string
  totalBytes :: int
  wastedBytes :: jsnum
  wastedPercent :: jsnum
  numUnused :: int

text \<open>
  The body of the inner \<^verbatim>\<open>forEach\<close> of \<^verbatim>\<open>computeWaste\<close>: the object pushed for one
  protocol range.
\<close>

definition flatRange :: "coverage \<Rightarrow> range" where
  "flatRange rng =
     (let isUsed' = coverage.count rng > 0;
          span' = coverage.endOffset rng - coverage.startOffset rng;
          used' = (if isUsed' then span' else 0);
          unused' = (if isUsed' then 0 else span')
      in \<lparr>used = used', unused = unused', isUsed = isUsed', span = span',
          startOffset = coverage.startOffset rng, endOffset = coverage.endOffset rng,
          count = coverage.count rng\<rparr>)"

text \<open>
  The inner \<^verbatim>\<open>forEach\<close> over \<^verbatim>\<open>func.ranges\<close>; its state is \<^verbatim>\<open>functionIsUsed\<close> and the
  array \<^verbatim>\<open>ranges\<close> that is pushed to.
\<close>

definition forEachRange :: "bool \<times> range list \<Rightarrow> coverage \<Rightarrow> bool \<times> range list" where
  "forEachRange st rng =
     (case st of (functionIsUsed, acc) \<Rightarrow>
        (functionIsUsed \<or> isUsed (flatRange rng), acc @ [flatRange rng]))"

text \<open>
  The outer \<^verbatim>\<open>forEach\<close> over \<^verbatim>\<open>script.functions\<close>; its state is
  \<^verbatim>\<open>numUnusedFunctions\<close> and the array \<^verbatim>\<open>ranges\<close>.
\<close>

definition forEachFunction :: "int \<times> range list \<Rightarrow> func \<Rightarrow> int \<times> range list" where
  "forEachFunction st fn =
     (case st of (numUnusedFunctions, acc) \<Rightarrow>
        (case foldl forEachRange (False, acc) (ranges fn) of (functionIsUsed, acc') \<Rightarrow>
           (if \<not> functionIsUsed then numUnusedFunctions + 1 else numUnusedFunctions, acc')))"

definition collectRanges :: "script \<Rightarrow> int \<times> range list" where
  "collectRanges scr = foldl forEachFunction (0, []) (functions scr)"

text \<open>
  The comparator given to \<^verbatim>\<open>ranges.sort\<close>:
  \<^verbatim>\<open>rangeA.startOffset - rangeB.startOffset || rangeB.endOffset - rangeA.endOffset\<close>.
\<close>

definition compareRanges :: "range \<Rightarrow> range \<Rightarrow> int" where
  "compareRanges rangeA rangeB =
     (if startOffset rangeA - startOffset rangeB \<noteq> 0
      then startOffset rangeA - startOffset rangeB
      else endOffset rangeB - endOffset rangeA)"

text \<open>
  \<^verbatim>\<open>Array.prototype.sort\<close> with that comparator, as a stable insertion sort. Two elements
  that the comparator does not separate have the same offsets; the order in which an engine
  leaves them is the only freedom, and current engines are stable.
\<close>

fun insertRange :: "range \<Rightarrow> range list \<Rightarrow> range list" where
  "insertRange x [] = [x]"
| "insertRange x (y # ys) =
     (if compareRanges x y \<le> 0 then x # y # ys else y # insertRange x ys)"

definition sortRanges :: "range list \<Rightarrow> range list" where
  "sortRanges rs = foldr insertRange rs []"

text \<open>The value of \<^verbatim>\<open>results\<close> in \<^verbatim>\<open>computeWaste\<close>: the decomposition of the sorted flat list.\<close>

definition decomposed :: "script \<Rightarrow> usedUnused" where
  "decomposed scr = findUsedAndUnused (sortRanges (snd (collectRanges scr)))"

text \<open>
  \<^verbatim>\<open>computeWaste(script, networkRecord)\<close>. \<^verbatim>\<open>URL.getDisplayName\<close> comes from
  \<^verbatim>\<open>lib/url-shim\<close> and is a parameter here. There is no \<^verbatim>\<open>throw\<close> statement and no
  check of the ranges on this path. What an engine raises by itself (a call stack that is
  exhausted by the recursion of the decomposer, say) is not modelled.
\<close>

definition computeWaste :: "(string \<Rightarrow> string) \<Rightarrow> script \<Rightarrow> networkRecord \<Rightarrow> wasteResult" where
  "computeWaste getDisplayName scr networkRec =
     (let url' = getDisplayName (script.url scr);
          numUnusedFunctions = fst (collectRanges scr);
          results = decomposed scr;
          wastedRatio = orZero (jsDivide (unused results) (unused results + used results));
          totalBytes' = transferSize networkRec;
          wastedBytes' = Math_round (jsTimes totalBytes' wastedRatio)
      in \<lparr>url = url', totalBytes = totalBytes', wastedBytes = wastedBytes',
          wastedPercent = jsTimes 100 wastedRatio, numUnused = numUnusedFunctions\<rparr>)"

definition IGNORE_THRESHOLD_IN_BYTES :: int where
  "IGNORE_THRESHOLD_IN_BYTES = 2048"

text \<open>
  The \<^verbatim>\<open>Map\<close> that \<^verbatim>\<open>audit_\<close> reduces into, as an association list in insertion order:
  \<^verbatim>\<open>set\<close> on a key that is present replaces the value where it stands, on a new key it
  appends; \<^verbatim>\<open>get\<close> is \<open>map_of\<close> and \<^verbatim>\<open>values()\<close> is \<open>map snd\<close>.
\<close>

fun mapSet :: "('k \<times> 'v) list \<Rightarrow> 'k \<Rightarrow> 'v \<Rightarrow> ('k \<times> 'v) list" where
  "mapSet [] k v = [(k, v)]"
| "mapSet ((k', v') # kvs) k v =
     (if k' = k then (k, v) # kvs else (k', v') # mapSet kvs k v)"

text \<open>The callback of \<^verbatim>\<open>artifacts.JsUsage.reduce\<close>.\<close>

definition reduceScript ::
  "(string \<Rightarrow> string) \<Rightarrow> networkRecord list \<Rightarrow> (string \<times> wasteResult) list \<Rightarrow> script
     \<Rightarrow> (string \<times> wasteResult) list" where
  "reduceScript getDisplayName networkRecords results scr =
     (case find (\<lambda>record. networkRecord.url record = script.url scr) networkRecords of
        None \<Rightarrow> results
      | Some networkRec \<Rightarrow>
          let result = computeWaste getDisplayName scr networkRec;
              existing = map_of results (wasteResult.url result)
          in (case existing of
                None \<Rightarrow> mapSet results (wasteResult.url result) result
              | Some ex \<Rightarrow>
                  if jsGreater (wastedBytes ex) (wastedBytes result)
                  then mapSet results (wasteResult.url result) result
                  else results))"

record artifacts =
  JsUsage :: "script list"

definition resultsMap ::
  "(string \<Rightarrow> string) \<Rightarrow> artifacts \<Rightarrow> networkRecord list \<Rightarrow> (string \<times> wasteResult) list" where
  "resultsMap getDisplayName arts networkRecords =
     foldl (reduceScript getDisplayName networkRecords) [] (JsUsage arts)"

record auditResult =
  results :: "wasteResult list"
  tableHeadings :: "(string \<times> string) list"

text \<open>
  \<^verbatim>\<open>audit_(artifacts, networkRecords)\<close>, named \<open>audit\<close> here (a name cannot end in an
  underscore).
\<close>

definition audit ::
  "(string \<Rightarrow> string) \<Rightarrow> artifacts \<Rightarrow> networkRecord list \<Rightarrow> auditResult" where
  "audit getDisplayName arts networkRecords =
     \<lparr>results = filter (\<lambda>item. jsGreater (wastedBytes item) (Fin (of_int IGNORE_THRESHOLD_IN_BYTES)))
                  (map snd (resultsMap getDisplayName arts networkRecords)),
      tableHeadings = [(''url'', ''URL''), (''numUnused'', ''Unused Functions''),
                       (''totalKb'', ''Original''), (''potentialSavings'', ''Potential Savings'')]\<rparr>"

text \<open>
  The helpers of the repository's unit test, with which its scripts and records are built:
  one function per triple \<^verbatim>\<open>[startOffset, endOffset, used]\<close>.
\<close>

definition generateRecord :: "string \<Rightarrow> int \<Rightarrow> networkRecord" where
  "generateRecord u transferSize' =
     \<lparr>networkRecord.url = ''https://google.com/'' @ u, transferSize = transferSize'\<rparr>"

definition generateScript :: "string \<Rightarrow> (int \<times> int \<times> bool) list \<Rightarrow> script" where
  "generateScript u triples =
     \<lparr>script.url = ''https://google.com/'' @ u,
      functions = map (\<lambda>(s, e, b).
         \<lparr>ranges = [\<lparr>coverage.startOffset = s, coverage.endOffset = e,
                      coverage.count = (if b then 1 else 0)\<rparr>]\<rparr>) triples\<rparr>"

text \<open>
  A range built as the repository's test helper \<^verbatim>\<open>generateScript\<close> and the flattening of
  \<^verbatim>\<open>computeWaste\<close> build it from a triple \<^verbatim>\<open>[startOffset, endOffset, used]\<close>.
\<close>

definition testRange :: "int \<Rightarrow> int \<Rightarrow> bool \<Rightarrow> range" where
  "testRange s e b =
     flatRange \<lparr>coverage.startOffset = s, coverage.endOffset = e,
                coverage.count = (if b then 1 else 0)\<rparr>"

section \<open>Properties of ranges and of range lists\<close>

text \<open>
  The derived fields of a flat range are those that \<^verbatim>\<open>computeWaste\<close> computes:
  \<^verbatim>\<open>span = endOffset - startOffset\<close>, \<^verbatim>\<open>used = isUsed ? span : 0\<close>,
  \<^verbatim>\<open>unused = isUsed ? 0 : span\<close>.
\<close>

definition derivedFields :: "range \<Rightarrow> bool" where
  "derivedFields r =
     (span r = endOffset r - startOffset r
      \<and> used r = (if isUsed r then span r else 0)
      \<and> unused r = (if isUsed r then 0 else span r))"

text \<open>
  The decomposer's precondition on the order: ascending by \<^verbatim>\<open>startOffset\<close>, ties broken by
  \<^verbatim>\<open>endOffset\<close> descending, which is what the comparator of \<^verbatim>\<open>computeWaste\<close> establishes.
\<close>

definition sortedRanges :: "range list \<Rightarrow> bool" where
  "sortedRanges rs = sorted_wrt (\<lambda>a b. compareRanges a b \<le> 0) rs"

text \<open>The test of the scanning loop: \<open>r\<close> starts before \<open>firstRange\<close> ends.\<close>

abbreviation nestedIn :: "range \<Rightarrow> range \<Rightarrow> bool" where
  "nestedIn firstRange r \<equiv> startOffset r < endOffset firstRange"

section \<open>Notions of the specification\<close>

text \<open>
  The top-level (non-nested) ranges of a sorted list, as the decomposer tells them from the
  nested ones: the first range, then the first range that does not start inside it, and so
  on. Every range skipped in between starts inside the top-level range before it.
\<close>

function topLevel :: "range list \<Rightarrow> range list" where
  "topLevel [] = []"
| "topLevel (r # rs) = r # topLevel (dropWhile (nestedIn r) rs)"
  by pat_completeness auto
termination
  by (relation "measure length") (auto simp: length_dropWhile_le less_Suc_eq_le)

text \<open>
  The specification's \<^verbatim>\<open>totalSpanCovered\<close>: the union length of the top-level spans (lemma
  \<open>totalSpanCovered_union\<close> below: on a list in the decomposer's order the top-level spans
  are pairwise disjoint, and the sum of their lengths is the size of their union).
\<close>

definition totalSpanCovered :: "range list \<Rightarrow> int" where
  "totalSpanCovered rs = (\<Sum>r\<leftarrow>topLevel rs. endOffset r - startOffset r)"

text \<open>
  The gaps between consecutive top-level spans: for each pair of neighbours, the bytes from
  the end of the one to the start of the next.
\<close>

fun gapsBetween :: "range list \<Rightarrow> int" where
  "gapsBetween (a # b # rs) = (startOffset b - endOffset a) + gapsBetween (b # rs)"
| "gapsBetween _ = 0"

definition interSiblingGaps :: "range list \<Rightarrow> int" where
  "interSiblingGaps rs = gapsBetween (topLevel rs)"

text \<open>
  Two ranges are properly nested when they are disjoint or one contains the other; a list
  is well nested when any two of its ranges are.
\<close>

definition properlyNested :: "range \<Rightarrow> range \<Rightarrow> bool" where
  "properlyNested a b =
     (endOffset a \<le> startOffset b \<or> endOffset b \<le> startOffset a
      \<or> (startOffset a \<le> startOffset b \<and> endOffset b \<le> endOffset a)
      \<or> (startOffset b \<le> startOffset a \<and> endOffset a \<le> endOffset b))"

definition wellNested :: "range list \<Rightarrow> bool" where
  "wellNested rs = (\<forall>a\<in>set rs. \<forall>b\<in>set rs. properlyNested a b)"

text \<open>
  No unused range that has a range nested in it is followed by a gap: for every range
  \<open>f\<close> of the list that is not used and whose successor starts inside it, the first later
  range that does not start inside \<open>f\<close>, if there is one, starts where \<open>f\<close> ends.
\<close>

fun noDroppedGap :: "range list \<Rightarrow> bool" where
  "noDroppedGap [] = True"
| "noDroppedGap (f # rs) =
     ((case rs of
         [] \<Rightarrow> True
       | s # _ \<Rightarrow> isUsed f \<or> startOffset s \<ge> endOffset f
                  \<or> (case dropWhile (nestedIn f) rs of
                        [] \<Rightarrow> True
                      | r # _ \<Rightarrow> startOffset r = endOffset f))
      \<and> noDroppedGap rs)"

text \<open>
  The relation between an earlier and a later range of a sorted, well nested list: the later
  one does not start before the earlier one, and if it starts inside it, it ends inside it.
\<close>

definition nests :: "range \<Rightarrow> range \<Rightarrow> bool" where
  "nests a b =
     (startOffset a \<le> startOffset b
      \<and> (startOffset b < endOffset a \<longrightarrow> endOffset b \<le> endOffset a))"

text \<open>All protocol ranges of a script, function after function.\<close>

definition allRanges :: "script \<Rightarrow> coverage list" where
  "allRanges scr = concat (map ranges (functions scr))"

text \<open>
  The well-formed ranges of the specification: \<^verbatim>\<open>endOffset > startOffset\<close>, and the ranges of
  one function do not overlap each other.
\<close>

definition wellFormedRange :: "coverage \<Rightarrow> bool" where
  "wellFormedRange c = (coverage.startOffset c < coverage.endOffset c)"

definition disjointCoverage :: "coverage \<Rightarrow> coverage \<Rightarrow> bool" where
  "disjointCoverage a b =
     (coverage.endOffset a \<le> coverage.startOffset b
      \<or> coverage.endOffset b \<le> coverage.startOffset a)"

definition containsCoverage :: "coverage \<Rightarrow> coverage \<Rightarrow> bool" where
  "containsCoverage a b =
     (coverage.startOffset a \<le> coverage.startOffset b
      \<and> coverage.endOffset b \<le> coverage.endOffset a)"

fun nonOverlapping :: "coverage list \<Rightarrow> bool" where
  "nonOverlapping [] = True"
| "nonOverlapping (c # cs) = ((\<forall>d\<in>set cs. disjointCoverage c d) \<and> nonOverlapping cs)"

definition wellFormedScript :: "script \<Rightarrow> bool" where
  "wellFormedScript scr =
     (\<forall>fn\<in>set (functions scr).
        (\<forall>c\<in>set (ranges fn). wellFormedRange c) \<and> nonOverlapping (ranges fn))"

text \<open>
  The ranges of a script are properly nested across its functions: any two of them are
  disjoint or one contains the other.
\<close>

definition wellNestedScript :: "script \<Rightarrow> bool" where
  "wellNestedScript scr =
     (\<forall>a\<in>set (allRanges scr). \<forall>b\<in>set (allRanges scr).
        disjointCoverage a b \<or> containsCoverage a b \<or> containsCoverage b a)"

text \<open>The script of the unit test of \<^verbatim>\<open>computeWaste\<close>.\<close>

definition scriptUsage :: script where
  "scriptUsage = generateScript ''myscript.js''
     [(0, 100, True), (0, 10, True), (0, 40, True), (20, 40, False), (60, 100, False),
      (70, 80, False), (100, 150, False), (180, 200, False), (100, 200, True)]"



text \<open>A function is used when one of its ranges has a positive count.\<close>

definition functionIsUsed :: "func \<Rightarrow> bool" where
  "functionIsUsed fn = (\<exists>c\<in>set (ranges fn). coverage.count c > 0)"

text \<open>
  The results of \<^verbatim>\<open>computeWaste\<close> for the scripts that have a network record, in the order
  of the scripts: the values that the reduction of \<^verbatim>\<open>audit_\<close> offers to its map.
\<close>

definition joinedSamples ::
  "(string \<Rightarrow> string) \<Rightarrow> networkRecord list \<Rightarrow> script list \<Rightarrow> wasteResult list" where
  "joinedSamples getDisplayName networkRecords scripts =
     List.map_filter (\<lambda>scr.
        map_option (computeWaste getDisplayName scr)
          (find (\<lambda>record. networkRecord.url record = script.url scr) networkRecords)) scripts"

text \<open>What the callback of the reduction does with one such value.\<close>

definition retain ::
  "(string \<times> wasteResult) list \<Rightarrow> wasteResult \<Rightarrow> (string \<times> wasteResult) list" where
  "retain m result =
     (case map_of m (wasteResult.url result) of
        None \<Rightarrow> mapSet m (wasteResult.url result) result
      | Some ex \<Rightarrow>
          if jsGreater (wastedBytes ex) (wastedBytes result)
          then mapSet m (wasteResult.url result) result
          else m)"

text \<open>
  The invariant of the reduction: the keys are distinct, they are the urls of the samples
  seen so far, and the value kept under a key is a sample with that url than which no
  sample with that url has strictly smaller \<^verbatim>\<open>wastedBytes\<close>.
\<close>

definition dedupInvariant :: "(string \<times> wasteResult) list \<Rightarrow> wasteResult list \<Rightarrow> bool" where
  "dedupInvariant m ws =
     (distinct (map fst m)
      \<and> dom (map_of m) = wasteResult.url ` set ws
      \<and> (\<forall>k v. map_of m k = Some v \<longrightarrow>
            wasteResult.url v = k \<and> v \<in> set ws
            \<and> (\<forall>w\<in>set ws. wasteResult.url w = k
                  \<longrightarrow> \<not> jsGreater (wastedBytes v) (wastedBytes w))))"

text \<open>The scripts and records of the unit test of \<^verbatim>\<open>audit_\<close>.\<close>

definition scriptA :: script where
  "scriptA = generateScript ''scriptA.js'' [(0, 100, True)]"

definition scriptADuplicate :: script where
  "scriptADuplicate = generateScript ''scriptA.js'' [(0, 100, True)]"

definition scriptB :: script where
  "scriptB = generateScript ''scriptB.js'' [(0, 100, True), (0, 50, False)]"

definition scriptBDuplicate :: script where
  "scriptBDuplicate = generateScript ''scriptB.js'' [(0, 100, False)]"

definition recordA :: networkRecord where
  "recordA = generateRecord ''scriptA.js'' 35000"

definition recordB :: networkRecord where
  "recordB = generateRecord ''scriptB.js'' 50000"

text \<open>A script whose only function has two overlapping ranges.\<close>

definition overlappingScript :: script where
  "overlappingScript =
     \<lparr>script.url = ''https://google.com/c.js'',
      functions = [\<lparr>ranges =
        [\<lparr>coverage.startOffset = 0, coverage.endOffset = 10, coverage.count = 1\<rparr>,
         \<lparr>coverage.startOffset = 5, coverage.endOffset = 20, coverage.count = 0\<rparr>]\<rparr>]\<rparr>"

section \<open>The decomposer, case by case\<close>

lemma scanEndIndex_takeWhile:
  "scanEndIndex xs firstRange i =
     i + length (takeWhile (nestedIn firstRange) (drop i xs))"
proof (induction xs firstRange i rule: scanEndIndex.induct)
  case (1 xs firstRange i)
  show ?case
  proof (cases "i < length xs")
    case False
    then show ?thesis by (subst scanEndIndex.simps) simp
  next
    case True
    then have d: "drop i xs = xs ! i # drop (Suc i) xs"
      by (simp add: Cons_nth_drop_Suc)
    show ?thesis
    proof (cases "startOffset (xs ! i) < endOffset firstRange")
      case False
      with True d show ?thesis by (subst scanEndIndex.simps) simp
    next
      case t: True
      with True "1.IH" have "scanEndIndex xs firstRange (i + 1) =
        i + 1 + length (takeWhile (nestedIn firstRange) (drop (i + 1) xs))"
        by simp
      with True t d show ?thesis by (subst scanEndIndex.simps) simp
    qed
  qed
qed

lemma spanningRanges_eq:
  "take (scanEndIndex (f # rs) f 1 - 1) (drop 1 (f # rs)) =
     takeWhile (nestedIn f) rs"
  by (simp add: scanEndIndex_takeWhile takeWhile_eq_take [symmetric])

lemma restOfRanges_eq:
  "drop (scanEndIndex (f # rs) f 1) (f # rs) =
     dropWhile (nestedIn f) rs"
  by (simp add: scanEndIndex_takeWhile dropWhile_eq_drop [symmetric])

lemma findUsedAndUnused_Nil: "findUsedAndUnused [] = \<lparr>used = 0, unused = 0\<rparr>"
  by (subst findUsedAndUnused.simps) simp

lemma findUsedAndUnused_single: "findUsedAndUnused [r] = \<lparr>used = used r, unused = unused r\<rparr>"
  by (subst findUsedAndUnused.simps) (simp add: usedUnused.truncate_def)

lemma findUsedAndUnused_disjoint:
  assumes "startOffset s \<ge> endOffset f"
  shows "findUsedAndUnused (f # s # rs) =
           add (add f \<lparr>used = startOffset s - endOffset f, unused = 0\<rparr>)
               (findUsedAndUnused (s # rs))"
  using assms by (subst findUsedAndUnused.simps) simp

lemma findUsedAndUnused_nested_used:
  assumes "startOffset s < endOffset f" and "isUsed f"
  shows "findUsedAndUnused (f # s # rs) =
           add (add \<lparr>used = startOffset s - startOffset f, unused = 0\<rparr>
                    \<lparr>used = nextStart (dropWhile (nestedIn f) (s # rs)) f
                            - latestEnd (takeWhile (nestedIn f) (s # rs)),
                     unused = 0\<rparr>)
               (add (findUsedAndUnused (takeWhile (nestedIn f) (s # rs)))
                    (findUsedAndUnused (dropWhile (nestedIn f) (s # rs))))"
  using assms spanningRanges_eq [of f "s # rs"] restOfRanges_eq [of f "s # rs"]
  by (subst findUsedAndUnused.simps) (simp add: Let_def)

lemma findUsedAndUnused_nested_unused:
  assumes "startOffset s < endOffset f" and "\<not> isUsed f"
  shows "findUsedAndUnused (f # s # rs) =
           add f (findUsedAndUnused (dropWhile (nestedIn f) (s # rs)))"
  using assms restOfRanges_eq [of f "s # rs"]
  by (subst findUsedAndUnused.simps) (simp add: Let_def)


lemma spanningRanges_nonempty:
  assumes "nestedIn f s"
  shows "take (scanEndIndex (f # s # rs) f 1 - 1) (drop 1 (f # s # rs)) \<noteq> []"
proof -
  have "take (scanEndIndex (f # s # rs) f 1 - 1) (drop 1 (f # s # rs)) =
          takeWhile (nestedIn f) (s # rs)"
    by (rule spanningRanges_eq)
  with assms show ?thesis by simp
qed




section \<open>Order, nesting and the top level\<close>

text \<open>
  A list in the decomposer's order that is well nested is sorted for \<open>nests\<close>: a later
  range that starts inside an earlier one ends inside it.
\<close>

lemma compareRanges_le_0:
  "compareRanges x y \<le> 0 \<longleftrightarrow>
     startOffset x < startOffset y \<or> (startOffset x = startOffset y \<and> endOffset y \<le> endOffset x)"
  unfolding compareRanges_def by (cases "startOffset x = startOffset y") (simp, simp, linarith)

lemma sorted_nests:
  assumes "sortedRanges rs" and "wellNested rs" and "\<forall>r\<in>set rs. startOffset r < endOffset r"
  shows "sorted_wrt nests rs"
proof -
  have "nests x y" if "x \<in> set rs" "y \<in> set rs" "compareRanges x y \<le> 0" for x y
  proof -
    from that assms(2) have "properlyNested x y" by (simp add: wellNested_def)
    moreover from that assms(3) have "startOffset x < endOffset x" "startOffset y < endOffset y"
      by simp_all
    moreover from that(3) have "startOffset x < startOffset y
        \<or> (startOffset x = startOffset y \<and> endOffset y \<le> endOffset x)"
      by (simp add: compareRanges_le_0)
    ultimately show ?thesis
      unfolding nests_def properlyNested_def by linarith
  qed
  then show ?thesis
    using assms(1) sorted_wrt_mono_rel [of rs "\<lambda>a b. compareRanges a b \<le> 0" nests]
    unfolding sortedRanges_def by blast
qed

text \<open>
  The reduction for \<^verbatim>\<open>latestEnd\<close> yields the largest \<^verbatim>\<open>endOffset\<close> of the list, which on
  a list sorted for \<open>nests\<close> is the end of the last top-level range.
\<close>

lemma foldl_maxByEnd_mem: "foldl maxByEnd a xs \<in> set (a # xs)"
  by (induction xs arbitrary: a) (auto simp: maxByEnd_def)

lemma foldl_maxByEnd_ge_init: "endOffset a \<le> endOffset (foldl maxByEnd a xs)"
proof (induction xs arbitrary: a)
  case Nil show ?case by simp
next
  case (Cons x xs)
  have "endOffset a \<le> endOffset (maxByEnd a x)" by (simp add: maxByEnd_def)
  also have "\<dots> \<le> endOffset (foldl maxByEnd (maxByEnd a x) xs)" by (rule Cons.IH)
  finally show ?case by simp
qed

lemma foldl_maxByEnd_ge: "x \<in> set (a # xs) \<Longrightarrow> endOffset x \<le> endOffset (foldl maxByEnd a xs)"
proof (induction xs arbitrary: a)
  case Nil then show ?case by simp
next
  case (Cons y ys)
  have step: "endOffset (maxByEnd a y) \<le> endOffset (foldl maxByEnd (maxByEnd a y) ys)"
    by (rule foldl_maxByEnd_ge_init)
  from Cons.prems consider "x = a" | "x = y" | "x \<in> set ys" by auto
  then show ?case
  proof cases
    case 1
    have "endOffset a \<le> endOffset (maxByEnd a y)" by (simp add: maxByEnd_def)
    with step 1 show ?thesis by simp
  next
    case 2
    have "endOffset y \<le> endOffset (maxByEnd a y)" by (simp add: maxByEnd_def)
    with step 2 show ?thesis by simp
  next
    case 3
    then have "x \<in> set (maxByEnd a y # ys)" by simp
    from Cons.IH [OF this] show ?thesis by simp
  qed
qed

lemma latestEnd_mem: "xs \<noteq> [] \<Longrightarrow> \<exists>x\<in>set xs. latestEnd xs = endOffset x"
  using foldl_maxByEnd_mem [of "hd xs" "tl xs"] by (cases xs) (auto simp: latestEnd_def)

lemma latestEnd_ge: "x \<in> set xs \<Longrightarrow> endOffset x \<le> latestEnd xs"
  using foldl_maxByEnd_ge [of x "hd xs" "tl xs"] by (cases xs) (auto simp: latestEnd_def)

lemma topLevel_subset: "set (topLevel xs) \<subseteq> set xs"
proof (induction xs rule: topLevel.induct)
  case 1 show ?case by simp
next
  case (2 r rs)
  then show ?case using set_dropWhileD [of _ "nestedIn r" rs] by auto
qed

lemma topLevel_Nil_iff [simp]: "topLevel xs = [] \<longleftrightarrow> xs = []"
  by (cases xs) simp_all

lemma hd_topLevel: "xs \<noteq> [] \<Longrightarrow> hd (topLevel xs) = hd xs"
  by (cases xs) simp_all

lemma ends_le_last_topLevel:
  assumes "sorted_wrt nests xs" and "\<forall>x\<in>set xs. startOffset x < endOffset x" and "x \<in> set xs"
  shows "endOffset x \<le> endOffset (last (topLevel xs))"
  using assms
proof (induction xs arbitrary: x rule: topLevel.induct)
  case 1 then show ?case by simp
next
  case (2 r rs)
  let ?D = "dropWhile (nestedIn r) rs"
  have in_take: "endOffset y \<le> endOffset r" if "y \<in> set (takeWhile (nestedIn r) rs)" for y
  proof -
    from that have "y \<in> set rs" "nestedIn r y"
      by (auto dest: set_takeWhileD)
    with "2.prems"(1) show ?thesis by (auto simp: nests_def)
  qed
  show ?case
  proof (cases "?D = []")
    case True
    then have "set rs = set (takeWhile (nestedIn r) rs)"
      by (metis takeWhile_dropWhile_id append_Nil2)
    with in_take "2.prems"(3) True show ?thesis by auto
  next
    case False
    have sD: "sorted_wrt nests ?D"
      using "2.prems"(1) by (auto simp: dropWhile_eq_drop intro: sorted_wrt_drop)
    have pD: "\<forall>x\<in>set ?D. startOffset x < endOffset x"
      using "2.prems"(2) by (auto dest: set_dropWhileD)
    have IH: "endOffset y \<le> endOffset (last (topLevel ?D))" if "y \<in> set ?D" for y
      using "2.IH" [OF sD pD that] .
    from False have hdD: "hd ?D \<in> set ?D" by simp
    from False have "\<not> nestedIn r (hd ?D)" by (rule hd_dropWhile)
    moreover from pD hdD have "startOffset (hd ?D) < endOffset (hd ?D)" by blast
    ultimately have r_le: "endOffset r \<le> endOffset (last (topLevel ?D))"
      using IH [OF hdD] by simp
    have "set rs = set (takeWhile (nestedIn r) rs) \<union> set ?D"
      by (metis set_append takeWhile_dropWhile_id)
    with "2.prems"(3) consider "x = r" | "x \<in> set (takeWhile (nestedIn r) rs)" | "x \<in> set ?D"
      by auto
    then have "endOffset x \<le> endOffset (last (topLevel ?D))"
    proof cases
      case 1 with r_le show ?thesis by simp
    next
      case 2 from in_take [OF this] r_le show ?thesis by simp
    next
      case 3 then show ?thesis by (rule IH)
    qed
    with False show ?thesis by auto
  qed
qed

lemma latestEnd_topLevel:
  assumes "sorted_wrt nests xs" and "\<forall>x\<in>set xs. startOffset x < endOffset x" and "xs \<noteq> []"
  shows "latestEnd xs = endOffset (last (topLevel xs))"
proof (rule antisym)
  from assms(3) obtain x where "x \<in> set xs" "latestEnd xs = endOffset x"
    using latestEnd_mem by blast
  with ends_le_last_topLevel [OF assms(1,2)] show "latestEnd xs \<le> endOffset (last (topLevel xs))"
    by simp
next
  from assms(3) have "last (topLevel xs) \<in> set (topLevel xs)" by simp
  with topLevel_subset have "last (topLevel xs) \<in> set xs" by blast
  then show "endOffset (last (topLevel xs)) \<le> latestEnd xs" by (rule latestEnd_ge)
qed

text \<open>
  The top-level spans and the gaps between them, taken together, reach from the start of
  the first range to the end of the last top-level range.
\<close>

lemma covered_hull:
  "xs \<noteq> [] \<Longrightarrow>
     totalSpanCovered xs + interSiblingGaps xs = endOffset (last (topLevel xs)) - startOffset (hd xs)"
proof (induction xs rule: topLevel.induct)
  case 1 then show ?case by simp
next
  case (2 r rs)
  let ?D = "dropWhile (nestedIn r) rs"
  show ?case
  proof (cases "?D = []")
    case True
    then have eq: "topLevel (r # rs) = [r]" by (simp del: dropWhile_eq_Nil_conv)
    show ?thesis unfolding totalSpanCovered_def interSiblingGaps_def eq by simp
  next
    case False
    then obtain d ds where t: "topLevel ?D = d # ds" and d: "d = hd ?D"
      by (cases ?D) auto
    from "2.IH" [OF False] t d
    have "(\<Sum>r\<leftarrow>d # ds. endOffset r - startOffset r) + gapsBetween (d # ds)
            = endOffset (last (d # ds)) - startOffset d"
      by (simp add: totalSpanCovered_def interSiblingGaps_def)
    with t show ?thesis
      by (simp add: totalSpanCovered_def interSiblingGaps_def)
  qed
qed

lemma derived_total: "derivedFields r \<Longrightarrow> used r + unused r = endOffset r - startOffset r"
  by (simp add: derivedFields_def)

lemma noDroppedGap_prefix: "noDroppedGap (xs @ ys) \<Longrightarrow> noDroppedGap xs"
proof (induction xs)
  case Nil
  show ?case by simp
next
  case (Cons f xs)
  then have tail: "noDroppedGap xs" by simp
  show ?case
  proof (cases xs)
    case Nil
    then show ?thesis by simp
  next
    case (Cons s xs')
    show ?thesis
    proof (cases "dropWhile (nestedIn f) xs = []")
      case True
      then have "(case dropWhile (nestedIn f) xs of [] \<Rightarrow> True
                  | r # _ \<Rightarrow> startOffset r = endOffset f)"
        by (simp del: dropWhile_eq_Nil_conv)
      with tail Cons show ?thesis by simp
    next
      case False
      then have "dropWhile (nestedIn f) (xs @ ys) = dropWhile (nestedIn f) xs @ ys"
        by (auto simp: dropWhile_append)
      moreover from False obtain d ds where "dropWhile (nestedIn f) xs = d # ds"
        by (cases "dropWhile (nestedIn f) xs") auto
      ultimately show ?thesis
        using Cons.prems tail Cons by (auto simp del: dropWhile_eq_Nil_conv)
    qed
  qed
qed

lemma noDroppedGap_suffix: "noDroppedGap (xs @ ys) \<Longrightarrow> noDroppedGap ys"
  by (induction xs) simp_all

lemma noDroppedGap_takeWhile: "noDroppedGap xs \<Longrightarrow> noDroppedGap (takeWhile P xs)"
  using noDroppedGap_prefix [of "takeWhile P xs" "dropWhile P xs"] by simp

lemma noDroppedGap_dropWhile: "noDroppedGap xs \<Longrightarrow> noDroppedGap (dropWhile P xs)"
  using noDroppedGap_suffix [of "takeWhile P xs" "dropWhile P xs"] by simp

text \<open>
  The total of the decomposition, by induction on the length of the list along the three
  recursive branches of \<^verbatim>\<open>findUsedAndUnused\<close>.
\<close>

lemma decomposition_hull:
  assumes "sorted_wrt nests xs"
    and "\<forall>r\<in>set xs. derivedFields r \<and> 0 \<le> startOffset r \<and> startOffset r < endOffset r"
    and "noDroppedGap xs"
    and "xs \<noteq> []"
  shows "used (findUsedAndUnused xs) + unused (findUsedAndUnused xs)
           = endOffset (last (topLevel xs)) - startOffset (hd xs)"
  using assms
proof (induction xs rule: length_induct)
  case (1 xs)
  have IH: "used (findUsedAndUnused ys) + unused (findUsedAndUnused ys)
              = endOffset (last (topLevel ys)) - startOffset (hd ys)"
    if "length ys < length xs" and "sorted_wrt nests ys"
      and "\<forall>r\<in>set ys. derivedFields r \<and> 0 \<le> startOffset r \<and> startOffset r < endOffset r"
      and "noDroppedGap ys" and "ys \<noteq> []" for ys
    using "1.IH" that by blast
  from "1.prems"(4) consider r where "xs = [r]" | f s rs where "xs = f # s # rs"
    by (cases xs; cases "tl xs") auto
  then show ?case
  proof cases
    case 1
    with "1.prems"(2) show ?thesis
      by (simp add: findUsedAndUnused_single derived_total)
  next
    case 2
    let ?T = "takeWhile (nestedIn f) (s # rs)"
    let ?D = "dropWhile (nestedIn f) (s # rs)"
    from "1.prems"(2) 2 have f: "derivedFields f" "0 \<le> startOffset f" "startOffset f < endOffset f"
      by simp_all
    have top: "topLevel xs = f # topLevel ?D"
      unfolding 2 by simp
    have sD: "sorted_wrt nests ?D" and sT: "sorted_wrt nests ?T"
      using "1.prems"(1) unfolding 2 by (simp_all del: takeWhile.simps dropWhile.simps)
    have pD: "\<forall>r\<in>set ?D. derivedFields r \<and> 0 \<le> startOffset r \<and> startOffset r < endOffset r"
      using "1.prems"(2) unfolding 2 by (auto dest: set_dropWhileD)
    have pT: "\<forall>r\<in>set ?T. derivedFields r \<and> 0 \<le> startOffset r \<and> startOffset r < endOffset r"
      using "1.prems"(2) unfolding 2 by (auto dest: set_takeWhileD)
    have gD: "noDroppedGap ?D" and gT: "noDroppedGap ?T"
      using "1.prems"(3) unfolding 2
      by (simp_all add: noDroppedGap_dropWhile noDroppedGap_takeWhile
            del: takeWhile.simps dropWhile.simps)
    have lD: "length ?D < length xs" and lT: "length ?T < length xs"
      unfolding 2 using length_dropWhile_le [of "nestedIn f" "s # rs"]
        length_takeWhile_le [of "nestedIn f" "s # rs"] by simp_all
    have hullD: "used (findUsedAndUnused ?D) + unused (findUsedAndUnused ?D)
                   = endOffset (last (topLevel ?D)) - startOffset (hd ?D)" if "?D \<noteq> []"
      using IH [OF lD sD pD gD that] .
    have startD: "endOffset f \<le> startOffset (hd ?D)" if "?D \<noteq> []"
      using hd_dropWhile [OF that] by simp
    show ?thesis
    proof (cases "nestedIn f s")
      case False
      then have D: "?D = s # rs" by simp
      from False have "findUsedAndUnused xs =
          add (add f \<lparr>used = startOffset s - endOffset f, unused = 0\<rparr>)
              (findUsedAndUnused (s # rs))"
        unfolding 2 by (simp add: findUsedAndUnused_disjoint)
      then have "used (findUsedAndUnused xs) + unused (findUsedAndUnused xs)
          = (used f + unused f) + (startOffset s - endOffset f)
            + (used (findUsedAndUnused ?D) + unused (findUsedAndUnused ?D))"
        unfolding D by (simp add: add_def)
      also have "\<dots> = (endOffset f - startOffset f) + (startOffset s - endOffset f)
            + (endOffset (last (topLevel ?D)) - startOffset (hd ?D))"
        using hullD f(1) D by (simp only: derived_total list.simps not_False_eq_True)
      also have "\<dots> = endOffset (last (topLevel ?D)) - startOffset f"
        unfolding D by simp
      finally show ?thesis
        unfolding top unfolding 2 D by simp
    next
      case nested: True
      then have Tne: "?T \<noteq> []" and hdT: "hd ?T = s" by simp_all
      show ?thesis
      proof (cases "isUsed f")
        case False
        with nested have "findUsedAndUnused xs = add f (findUsedAndUnused ?D)"
          unfolding 2 by (rule findUsedAndUnused_nested_unused)
        then have total: "used (findUsedAndUnused xs) + unused (findUsedAndUnused xs)
            = (endOffset f - startOffset f)
              + (used (findUsedAndUnused ?D) + unused (findUsedAndUnused ?D))"
          using derived_total [OF f(1)] by (simp add: add_def)
        show ?thesis
        proof (cases "?D = []")
          case True
          then have "topLevel xs = [f]" unfolding top by (simp del: dropWhile_eq_Nil_conv dropWhile.simps)
          moreover from True have "findUsedAndUnused ?D = \<lparr>used = 0, unused = 0\<rparr>"
            by (simp add: findUsedAndUnused_Nil del: dropWhile_eq_Nil_conv dropWhile.simps)
          ultimately show ?thesis using total 2 by simp
        next
          case Dne: False
          then obtain d ds where d: "?D = d # ds" by (cases ?D) auto
          from "1.prems"(3) False nested d have "startOffset d = endOffset f"
            unfolding 2 by (simp del: dropWhile.simps)
          with d have "startOffset (hd ?D) = endOffset f" by simp
          with hullD [OF Dne] total have "used (findUsedAndUnused xs) + unused (findUsedAndUnused xs)
              = endOffset (last (topLevel ?D)) - startOffset f"
            by simp
          moreover from Dne have "last (topLevel xs) = last (topLevel ?D)"
            unfolding top by (simp del: dropWhile_eq_Nil_conv dropWhile.simps)
          ultimately show ?thesis unfolding 2 by simp
        qed
      next
        case True
        with nested have eq: "findUsedAndUnused xs =
           add (add \<lparr>used = startOffset s - startOffset f, unused = 0\<rparr>
                    \<lparr>used = nextStart ?D f - latestEnd ?T, unused = 0\<rparr>)
               (add (findUsedAndUnused ?T) (findUsedAndUnused ?D))"
          unfolding 2 by (rule findUsedAndUnused_nested_used)
        have "used (findUsedAndUnused ?T) + unused (findUsedAndUnused ?T)
                = endOffset (last (topLevel ?T)) - startOffset (hd ?T)"
          using IH [OF lT sT pT gT Tne] .
        moreover have "latestEnd ?T = endOffset (last (topLevel ?T))"
          using latestEnd_topLevel [OF sT _ Tne] pT by blast
        ultimately have inner: "used (findUsedAndUnused ?T) + unused (findUsedAndUnused ?T)
                = latestEnd ?T - startOffset s"
          using hdT by simp
        from eq have total: "used (findUsedAndUnused xs) + unused (findUsedAndUnused xs)
            = (startOffset s - startOffset f) + (nextStart ?D f - latestEnd ?T)
              + (used (findUsedAndUnused ?T) + unused (findUsedAndUnused ?T))
              + (used (findUsedAndUnused ?D) + unused (findUsedAndUnused ?D))"
          by (simp add: add_def)
        show ?thesis
        proof (cases "?D = []")
          case Dnil: True
          then have "topLevel xs = [f]" unfolding top by (simp del: dropWhile_eq_Nil_conv dropWhile.simps)
          moreover from Dnil have "findUsedAndUnused ?D = \<lparr>used = 0, unused = 0\<rparr>"
            by (simp add: findUsedAndUnused_Nil del: dropWhile_eq_Nil_conv dropWhile.simps)
          moreover from Dnil have "nextStart ?D f = endOffset f"
            by (simp add: nextStart_def del: dropWhile_eq_Nil_conv dropWhile.simps)
          ultimately show ?thesis using total inner 2 by simp
        next
          case Dne: False
          then obtain d ds where d: "?D = d # ds" by (cases ?D) auto
          from startD [OF Dne] f(2,3) have "startOffset (hd ?D) \<noteq> 0" by simp
          with d have "nextStart ?D f = startOffset (hd ?D)"
            by (simp add: nextStart_def del: dropWhile.simps)
          with hullD [OF Dne] total inner
          have "used (findUsedAndUnused xs) + unused (findUsedAndUnused xs)
              = endOffset (last (topLevel ?D)) - startOffset f"
            by simp
          moreover from Dne have "last (topLevel xs) = last (topLevel ?D)"
            unfolding top by (simp del: dropWhile_eq_Nil_conv dropWhile.simps)
          ultimately show ?thesis unfolding 2 by simp
        qed
      qed
    qed
  qed
qed

text \<open>
  Neither total of the decomposition is negative on a list sorted for \<open>nests\<close>: the left
  edge is non-negative by the order, the right edge since no nested range ends after the
  first one.
\<close>

lemma decomposition_nonneg:
  assumes "sorted_wrt nests xs"
    and "\<forall>r\<in>set xs. derivedFields r \<and> startOffset r < endOffset r"
  shows "0 \<le> used (findUsedAndUnused xs) \<and> 0 \<le> unused (findUsedAndUnused xs)"
  using assms
proof (induction xs rule: length_induct)
  case (1 xs)
  have IH: "0 \<le> used (findUsedAndUnused ys) \<and> 0 \<le> unused (findUsedAndUnused ys)"
    if "length ys < length xs" and "sorted_wrt nests ys"
      and "\<forall>r\<in>set ys. derivedFields r \<and> startOffset r < endOffset r" for ys
    using "1.IH" that by blast
  consider "xs = []" | r where "xs = [r]" | f s rs where "xs = f # s # rs"
    by (cases xs; cases "tl xs") auto
  then show ?case
  proof cases
    case 1
    then show ?thesis by (simp add: findUsedAndUnused_Nil)
  next
    case 2
    with "1.prems"(2) show ?thesis
      by (simp add: findUsedAndUnused_single derivedFields_def)
  next
    case 3
    let ?T = "takeWhile (nestedIn f) (s # rs)"
    let ?D = "dropWhile (nestedIn f) (s # rs)"
    from "1.prems"(2) 3 have f: "derivedFields f" "startOffset f < endOffset f"
      by simp_all
    then have fu: "0 \<le> used f" "0 \<le> unused f"
      by (simp_all add: derivedFields_def)
    have sD: "sorted_wrt nests ?D" and sT: "sorted_wrt nests ?T"
      using "1.prems"(1) unfolding 3 by (simp_all del: takeWhile.simps dropWhile.simps)
    have pD: "\<forall>r\<in>set ?D. derivedFields r \<and> startOffset r < endOffset r"
      using "1.prems"(2) unfolding 3 by (auto dest: set_dropWhileD)
    have pT: "\<forall>r\<in>set ?T. derivedFields r \<and> startOffset r < endOffset r"
      using "1.prems"(2) unfolding 3 by (auto dest: set_takeWhileD)
    have lD: "length ?D < length xs" and lT: "length ?T < length xs"
      unfolding 3 using length_dropWhile_le [of "nestedIn f" "s # rs"]
        length_takeWhile_le [of "nestedIn f" "s # rs"] by simp_all
    note nD = IH [OF lD sD pD] and nT = IH [OF lT sT pT]
    show ?thesis
    proof (cases "nestedIn f s")
      case False
      then have D: "?D = s # rs" by simp
      from False have "findUsedAndUnused xs =
          add (add f \<lparr>used = startOffset s - endOffset f, unused = 0\<rparr>)
              (findUsedAndUnused (s # rs))"
        unfolding 3 by (simp add: findUsedAndUnused_disjoint)
      with nD fu False show ?thesis
        unfolding D by (simp add: add_def)
    next
      case nested: True
      show ?thesis
      proof (cases "isUsed f")
        case False
        with nested have "findUsedAndUnused xs = add f (findUsedAndUnused ?D)"
          unfolding 3 by (rule findUsedAndUnused_nested_unused)
        with nD fu show ?thesis by (simp add: add_def)
      next
        case True
        with nested have eq: "findUsedAndUnused xs =
           add (add \<lparr>used = startOffset s - startOffset f, unused = 0\<rparr>
                    \<lparr>used = nextStart ?D f - latestEnd ?T, unused = 0\<rparr>)
               (add (findUsedAndUnused ?T) (findUsedAndUnused ?D))"
          unfolding 3 by (rule findUsedAndUnused_nested_used)
        from "1.prems"(1) have left: "startOffset f \<le> startOffset s"
          unfolding 3 by (simp add: nests_def)
        from nested have "?T \<noteq> []" by simp
        then obtain x where x: "x \<in> set ?T" "latestEnd ?T = endOffset x"
          using latestEnd_mem by blast
        then have "x \<in> set (s # rs)" "nestedIn f x"
          by (auto dest: set_takeWhileD)
        with "1.prems"(1) have "endOffset x \<le> endOffset f"
          unfolding 3 by (auto simp: nests_def)
        with x have le: "latestEnd ?T \<le> endOffset f" by simp
        have ge: "endOffset f \<le> nextStart ?D f"
        proof (cases ?D)
          case Nil
          show ?thesis unfolding nextStart_def Nil by simp
        next
          case (Cons d ds)
          then have "?D \<noteq> []" by simp
          from hd_dropWhile [OF this] Cons have "endOffset f \<le> startOffset d" by simp
          then show ?thesis unfolding nextStart_def Cons by simp
        qed
        from eq nD nT left le ge show ?thesis by (simp add: add_def)
      qed
    qed
  qed
qed

section \<open>Rounding to the nearest double\<close>

text \<open>
  The exponent that \<open>lastPlace\<close> finds puts the scaled number between \<open>2 ^ 52\<close> and
  \<open>2 ^ 53\<close>; rounding does not cross a double: a number that is at most a double \<open>c\<close> is
  rounded to a double that is at most \<open>c\<close>.
\<close>

lemma bitLength_pos: "0 < n \<Longrightarrow> 0 < bitLength n"
proof (induction n rule: bitLength.induct)
  case (1 n)
  have "0 \<le> bitLength (n div 2)"
  proof (cases "0 < n div 2")
    case True
    with "1.IH" "1.prems" show ?thesis by simp
  next
    case False
    then show ?thesis by (subst bitLength.simps) simp
  qed
  with "1.prems" show ?case by (subst bitLength.simps) simp
qed

lemma bitLength_bounds:
  "0 < n \<Longrightarrow> 2 ^ nat (bitLength n - 1) \<le> n \<and> n < 2 ^ nat (bitLength n)"
proof (induction n rule: bitLength.induct)
  case (1 n)
  show ?case
  proof (cases "n = 1")
    case True
    have "bitLength 0 = 0" by (subst bitLength.simps) simp
    then have "bitLength 1 = 1" by (subst bitLength.simps) simp
    with True show ?thesis by simp
  next
    case False
    with "1.prems" have h: "0 < n div 2" by simp
    with "1.IH" "1.prems" have IH: "2 ^ nat (bitLength (n div 2) - 1) \<le> n div 2"
      "n div 2 < 2 ^ nat (bitLength (n div 2))"
      by simp_all
    from h have b: "0 < bitLength (n div 2)" by (rule bitLength_pos)
    from "1.prems" have eq: "bitLength n = 1 + bitLength (n div 2)"
      by (subst bitLength.simps) simp
    from b have n1: "nat (bitLength n - 1) = Suc (nat (bitLength (n div 2) - 1))"
      unfolding eq by simp
    from b have n2: "nat (bitLength n) = Suc (nat (bitLength (n div 2)))"
      unfolding eq by simp
    from IH(1) have "2 * 2 ^ nat (bitLength (n div 2) - 1) \<le> n" by simp
    moreover from IH(2) have "n < 2 * 2 ^ nat (bitLength (n div 2))" by simp
    ultimately show ?thesis unfolding n1 n2 by simp
  qed
qed

lemma bitLength_powi:
  assumes "0 < n"
  shows "(2::rat) powi (bitLength n - 1) \<le> of_int n" and "of_int n < (2::rat) powi (bitLength n)"
proof -
  from assms have b: "0 < bitLength n" by (rule bitLength_pos)
  from bitLength_bounds [OF assms]
  have "(of_int (2 ^ nat (bitLength n - 1)) :: rat) \<le> of_int n"
    and "(of_int n :: rat) < of_int (2 ^ nat (bitLength n))"
    by (simp_all only: of_int_le_iff of_int_less_iff)
  with b show "(2::rat) powi (bitLength n - 1) \<le> of_int n"
    and "of_int n < (2::rat) powi (bitLength n)"
    by (simp_all add: power_int_def)
qed

lemma powi_split: "(2::rat) powi (a + b) = 2 powi a * 2 powi b"
  by (simp add: power_int_add)

lemma lastPlace_ge: "- 1074 \<le> lastPlace x"
  by (simp add: lastPlace_def Let_def split: prod.splits)

lemma lastPlace_raw:
  assumes "0 < x"
  obtains e where "lastPlace x = max e (- 1074)"
    and "2 ^ 52 \<le> x / 2 powi e" and "x / 2 powi e < 2 ^ 53"
proof -
  obtain p q where pq: "quotient_of x = (p, q)" by (cases "quotient_of x")
  then have q: "0 < q" and x: "x = of_int p / of_int q"
    by (simp_all add: quotient_of_denom_pos quotient_of_div)
  with assms have p: "0 < p"
    by (simp add: zero_less_divide_iff)
  define e0 where "e0 = bitLength p - bitLength q - 53"
  define e1 where "e1 = (if x / 2 powi e0 < 2 ^ 53 then e0 else e0 + 1)"
  have lp: "lastPlace x = max e1 (- 1074)"
    by (simp add: lastPlace_def pq Let_def e0_def e1_def)
  let ?P = "of_int p :: rat" and ?Q = "of_int q :: rat"
  from q p have Q: "0 < ?Q" and P: "0 < ?P" by simp_all
  note bp = bitLength_powi [OF p] and bq = bitLength_powi [OF q]
  have lo: "(2::rat) powi (bitLength p - 1 - bitLength q) < x"
  proof -
    have "(2::rat) powi (bitLength p - 1 - bitLength q) * ?Q
            < 2 powi (bitLength p - 1 - bitLength q) * 2 powi (bitLength q)"
      using bq(2) by simp
    also have "\<dots> = 2 powi (bitLength p - 1)"
      by (simp add: powi_split [symmetric])
    also have "\<dots> \<le> ?P" by (rule bp(1))
    finally show ?thesis using Q unfolding x by (simp add: pos_less_divide_eq)
  qed
  have hi: "x < (2::rat) powi (bitLength p - bitLength q + 1)"
  proof -
    have "?P < 2 powi (bitLength p)" by (rule bp(2))
    also have "\<dots> = 2 powi (bitLength p - bitLength q + 1) * 2 powi (bitLength q - 1)"
      by (simp add: powi_split [symmetric])
    also have "\<dots> \<le> 2 powi (bitLength p - bitLength q + 1) * ?Q"
      using bq(1) by simp
    finally show ?thesis using Q unfolding x by (simp add: pos_divide_less_eq)
  qed
  have pos: "0 < (2::rat) powi e" for e by simp
  have lo0: "2 ^ 52 < x / 2 powi e0"
  proof -
    have ex: "52 + e0 = bitLength p - 1 - bitLength q" by (simp add: e0_def)
    have "(2::rat) ^ 52 * 2 powi e0 = 2 powi (52 + e0)"
      by (simp add: powi_split)
    also have "\<dots> = 2 powi (bitLength p - 1 - bitLength q)"
      by (simp only: ex)
    also have "\<dots> < x" by (rule lo)
    finally show ?thesis by (simp add: pos_less_divide_eq)
  qed
  have hi0: "x / 2 powi e0 < 2 ^ 54"
  proof -
    have ex: "54 + e0 = bitLength p - bitLength q + 1" by (simp add: e0_def)
    have "x < 2 powi (54 + e0)" using hi by (simp only: ex)
    also have "\<dots> = (2::rat) ^ 54 * 2 powi e0"
      by (simp add: powi_split)
    finally show ?thesis by (simp add: pos_divide_less_eq)
  qed
  have "2 ^ 52 \<le> x / 2 powi e1 \<and> x / 2 powi e1 < 2 ^ 53"
  proof (cases "x / 2 powi e0 < 2 ^ 53")
    case True
    with lo0 show ?thesis by (simp add: e1_def)
  next
    case False
    then have e1: "e1 = e0 + 1" by (simp add: e1_def)
    have "(2::rat) powi (e0 + 1) = 2 powi e0 * 2" by (simp add: powi_split)
    then have half: "x / 2 powi e1 = (x / 2 powi e0) / 2" unfolding e1 by simp
    from False have "2 ^ 53 \<le> x / 2 powi e0" by simp
    then have "2 ^ 52 \<le> (x / 2 powi e0) / 2" by simp
    moreover from hi0 have "(x / 2 powi e0) / 2 < 2 ^ 53" by simp
    ultimately show ?thesis unfolding half by blast
  qed
  with lp that show ?thesis by blast
qed

lemma lastPlace_upper:
  assumes "0 < x"
  shows "x / 2 powi (lastPlace x) < 2 ^ 53"
proof -
  from assms obtain e where e: "lastPlace x = max e (- 1074)" "x / 2 powi e < 2 ^ 53"
    by (rule lastPlace_raw)
  have "(2::rat) powi e \<le> 2 powi (max e (- 1074))"
    by (rule power_int_increasing) simp_all
  with assms have "x / 2 powi (max e (- 1074)) \<le> x / 2 powi e"
    by (simp add: frac_le)
  with e show ?thesis by simp
qed

lemma lastPlace_lower:
  assumes "0 < x" and "- 1074 < lastPlace x"
  shows "2 ^ 52 \<le> x / 2 powi (lastPlace x)"
proof -
  from assms(1) obtain e where e: "lastPlace x = max e (- 1074)" "2 ^ 52 \<le> x / 2 powi e"
    by (rule lastPlace_raw)
  with assms(2) have "lastPlace x = e" by simp
  with e show ?thesis by simp
qed

lemma roundHalfEven_le: "y \<le> of_int N \<Longrightarrow> roundHalfEven y \<le> N"
proof -
  assume y: "y \<le> of_int N"
  then have f: "\<lfloor>y\<rfloor> \<le> N" by (simp add: floor_le_iff)
  have "\<lfloor>y\<rfloor> + 1 \<le> N" if "1 / 2 \<le> y - of_int \<lfloor>y\<rfloor>"
  proof -
    from that have "of_int \<lfloor>y\<rfloor> < y" by simp
    with y have "(of_int \<lfloor>y\<rfloor> :: rat) < of_int N" by simp
    then show ?thesis by simp
  qed
  with f show ?thesis
    by (auto simp: roundHalfEven_def Let_def)
qed

lemma roundHalfEven_nonneg: "0 \<le> y \<Longrightarrow> 0 \<le> roundHalfEven y"
  by (auto simp: roundHalfEven_def Let_def)

lemma toDoublePos_le:
  assumes "0 < x" and "x \<le> c" and "toDoublePos c = Fin c"
  shows "\<exists>v. toDoublePos x = Fin v \<and> 0 \<le> v \<and> v \<le> c"
proof -
  define ex ec mx mc
    where "ex = lastPlace x" and "ec = lastPlace c"
      and "mx = roundHalfEven (x / 2 powi ex)" and "mc = roundHalfEven (c / 2 powi ec)"
  from assms(1,2) have c: "0 < c" by simp
  from assms(3) have fin: "\<not> (971 < ec \<or> (ec = 971 \<and> 2 ^ 53 \<le> mc))"
    and val: "c = of_int mc * 2 powi ec"
    by (simp_all add: toDoublePos_def Let_def ec_def mc_def split: if_splits)
  have le: "ex \<le> ec"
  proof (cases "- 1074 < ex")
    case False
    with lastPlace_ge [of x] lastPlace_ge [of c] show ?thesis by (simp add: ex_def ec_def)
  next
    case True
    have "(2::rat) powi (52 + ex) = 2 ^ 52 * 2 powi ex" by (simp add: powi_split)
    also have "\<dots> \<le> x"
      using lastPlace_lower [OF assms(1)] True by (simp add: pos_le_divide_eq ex_def)
    also have "\<dots> \<le> c" by (rule assms(2))
    also have "\<dots> < 2 ^ 53 * 2 powi ec"
      using lastPlace_upper [OF c] by (simp add: pos_divide_less_eq ec_def)
    also have "\<dots> = 2 powi (53 + ec)" by (simp add: powi_split)
    finally have lt: "(2::rat) powi (52 + ex) < 2 powi (53 + ec)" .
    have "52 + ex < 53 + ec"
    proof (rule ccontr)
      assume "\<not> 52 + ex < 53 + ec"
      then have "53 + ec \<le> 52 + ex" by simp
      then have "(2::rat) powi (53 + ec) \<le> 2 powi (52 + ex)"
        by (rule power_int_increasing) simp
      with lt show False by linarith
    qed
    then show ?thesis by simp
  qed
  define k where "k = nat (ec - ex)"
  from le have ec: "ec = ex + int k" by (simp add: k_def)
  have "(2::rat) powi ec = 2 powi ex * 2 ^ k"
    unfolding ec by (simp add: powi_split)
  then have "of_int mc * 2 powi ec / 2 powi ex = (of_int mc * 2 ^ k :: rat)"
    by simp
  with val have cN: "c / 2 powi ex = of_int (mc * 2 ^ k)" by simp
  from assms(2) have "x / 2 powi ex \<le> c / 2 powi ex"
    by (simp add: divide_right_mono)
  then have mx: "mx \<le> mc * 2 ^ k"
    unfolding cN mx_def by (rule roundHalfEven_le)
  from assms(1) have mx0: "0 \<le> mx"
    unfolding mx_def by (intro roundHalfEven_nonneg) simp
  from mx have "(of_int mx :: rat) \<le> of_int (mc * 2 ^ k)"
    by (simp only: of_int_le_iff)
  then have "of_int mx * 2 powi ex \<le> of_int (mc * 2 ^ k) * (2::rat) powi ex"
    by (rule mult_right_mono) simp
  also have "\<dots> = c / 2 powi ex * 2 powi ex" by (simp only: cN)
  also have "\<dots> = c" by simp
  finally have v: "of_int mx * 2 powi ex \<le> c" .
  have nofl: "\<not> (971 < ex \<or> (ex = 971 \<and> 2 ^ 53 \<le> mx))"
  proof (cases "ex = 971")
    case True
    with le fin have e: "ec = 971" by simp
    with True have "k = 0" by (simp add: k_def)
    with mx have "mx \<le> mc" by simp
    moreover from fin e have "mc < 2 ^ 53" by simp
    ultimately show ?thesis using True by simp
  next
    case False
    with le fin show ?thesis by simp
  qed
  then have "toDoublePos x = Fin (of_int mx * 2 powi ex)"
    by (simp add: toDoublePos_def Let_def ex_def mx_def)
  moreover from mx0 have "0 \<le> (of_int mx :: rat) * 2 powi ex" by simp
  ultimately show ?thesis using v by blast
qed

lemma toDouble_le:
  assumes "0 \<le> x" and "x \<le> c" and "toDouble c = Fin c"
  shows "\<exists>v. toDouble x = Fin v \<and> 0 \<le> v \<and> v \<le> c"
proof (cases "x = 0")
  case True
  with assms show ?thesis by (simp add: toDouble_def)
next
  case False
  with assms have x: "0 < x" and c: "0 < c" by simp_all
  with assms(3) have "toDoublePos c = Fin c" by (simp add: toDouble_def)
  from toDoublePos_le [OF x assms(2) this] x show ?thesis by (simp add: toDouble_def)
qed

lemma toDoublePos_not_NaN: "toDoublePos x \<noteq> NaN"
  by (simp add: toDoublePos_def Let_def)

lemma toDouble_not_NaN: "toDouble x \<noteq> NaN"
  using toDoublePos_not_NaN [of x] toDoublePos_not_NaN [of "- x"]
  by (cases "toDoublePos (- x)") (simp_all add: toDouble_def jsNegate_def)

lemma toDouble_one: "toDouble 1 = Fin 1"
  by code_simp

lemma isDouble_hundred: "isDouble 100"
  by code_simp

section \<open>Flattening and sorting\<close>

text \<open>
  The sort keeps the elements and establishes the decomposer's order; the flat list holds
  one range for each protocol range of the script, with the derived fields.
\<close>

lemma set_insertRange: "set (insertRange x xs) = insert x (set xs)"
  by (induction xs) auto

lemma set_sortRanges: "set (sortRanges xs) = set xs"
  unfolding sortRanges_def by (induction xs) (simp_all add: set_insertRange)



lemma sortedRanges_insertRange:
  "sortedRanges xs \<Longrightarrow> sortedRanges (insertRange x xs)"
proof (induction xs)
  case Nil
  show ?case by (simp add: sortedRanges_def)
next
  case (Cons y ys)
  then have ys: "sortedRanges (insertRange x ys)" and y: "\<forall>z\<in>set ys. compareRanges y z \<le> 0"
    by (simp_all add: sortedRanges_def)
  show ?case
  proof (cases "compareRanges x y \<le> 0")
    case True
    have "compareRanges x z \<le> 0" if "z \<in> set ys" for z
    proof -
      from y that have "compareRanges y z \<le> 0" by simp
      with True show ?thesis unfolding compareRanges_le_0 by linarith
    qed
    with True Cons.prems show ?thesis by (simp add: sortedRanges_def)
  next
    case False
    then have "compareRanges y x \<le> 0" unfolding compareRanges_le_0 by linarith
    with False y ys show ?thesis by (simp add: sortedRanges_def set_insertRange)
  qed
qed

lemma sortedRanges_sortRanges: "sortedRanges (sortRanges xs)"
  unfolding sortRanges_def
  by (induction xs) (simp_all add: sortedRanges_insertRange, simp add: sortedRanges_def)

lemma foldl_forEachRange:
  "foldl forEachRange (b, acc) cs =
     (b \<or> (\<exists>c\<in>set cs. isUsed (flatRange c)), acc @ map flatRange cs)"
  by (induction cs arbitrary: b acc) (auto simp: forEachRange_def)

lemma snd_foldl_forEachFunction:
  "snd (foldl forEachFunction (n, acc) fs) = acc @ map flatRange (concat (map ranges fs))"
  by (induction fs arbitrary: n acc) (simp_all add: forEachFunction_def foldl_forEachRange)

lemma snd_collectRanges: "snd (collectRanges scr) = map flatRange (allRanges scr)"
  by (simp add: collectRanges_def allRanges_def snd_foldl_forEachFunction)

lemma derivedFields_flatRange: "derivedFields (flatRange c)"
  by (simp add: derivedFields_def flatRange_def Let_def)

lemma flatRange_offsets [simp]:
  "startOffset (flatRange c) = coverage.startOffset c"
  "endOffset (flatRange c) = coverage.endOffset c"
  by (simp_all add: flatRange_def Let_def)

text \<open>
  On a script with ranges of positive length that are properly nested, both totals of the
  decomposition are non-negative, and the ratio lies between 0 and 1.
\<close>

lemma decomposed_nonneg:
  assumes "\<forall>c\<in>set (allRanges scr). wellFormedRange c" and "wellNestedScript scr"
  shows "0 \<le> used (decomposed scr) \<and> 0 \<le> unused (decomposed scr)"
proof -
  let ?flat = "map flatRange (allRanges scr)"
  let ?sorted = "sortRanges ?flat"
  have pos: "\<forall>r\<in>set ?sorted. derivedFields r \<and> startOffset r < endOffset r"
    using assms(1) by (auto simp: set_sortRanges derivedFields_flatRange wellFormedRange_def)
  have "wellNested ?sorted"
    using assms(2)
    by (auto simp: wellNested_def wellNestedScript_def set_sortRanges properlyNested_def
          disjointCoverage_def containsCoverage_def)
  with sortedRanges_sortRanges pos have "sorted_wrt nests ?sorted"
    by (intro sorted_nests) auto
  from decomposition_nonneg [OF this pos] show ?thesis
    by (simp add: decomposed_def snd_collectRanges)
qed

lemma wastedRatio_unit:
  assumes "0 \<le> u" and "0 \<le> s"
  shows "\<exists>q. orZero (jsDivide u (u + s)) = Fin q \<and> 0 \<le> q \<and> q \<le> 1"
proof (cases "u + s = 0")
  case True
  with assms have "u = 0" by simp
  with True show ?thesis by (simp add: jsDivide_def orZero_def)
next
  case False
  let ?q = "of_int u / of_int (u + s) :: rat"
  from False assms have "0 < u + s" by simp
  with assms have q: "0 \<le> ?q" "?q \<le> 1" by simp_all
  show ?thesis
  proof (cases "isDouble u \<and> isDouble (u + s)")
    case True
    from toDouble_le [OF q toDouble_one] obtain v
      where "toDouble ?q = Fin v" "0 \<le> v" "v \<le> 1" by blast
    with True False show ?thesis by (simp add: jsDivide_def orZero_def)
  next
    case exact: False
    with False have "orZero (jsDivide u (u + s)) = Fin ?q"
      by (auto simp: jsDivide_def orZero_def)
    with q show ?thesis by blast
  qed
qed

lemma computeWaste_fields:
  "wasteResult.url (computeWaste g scr rec) = g (script.url scr)"
  "totalBytes (computeWaste g scr rec) = transferSize rec"
  "wastedBytes (computeWaste g scr rec) =
     Math_round (jsTimes (transferSize rec)
       (orZero (jsDivide (unused (decomposed scr)) (unused (decomposed scr) + used (decomposed scr)))))"
  "wastedPercent (computeWaste g scr rec) =
     jsTimes 100 (orZero (jsDivide (unused (decomposed scr)) (unused (decomposed scr) + used (decomposed scr))))"
  "numUnused (computeWaste g scr rec) = fst (collectRanges scr)"
  by (simp_all add: computeWaste_def Let_def)


section \<open>The union length of the top level\<close>

lemma totalSpanCovered_union:
  assumes "sorted_wrt (\<lambda>a b. startOffset a \<le> startOffset b) xs"
    and "\<forall>x\<in>set xs. startOffset x < endOffset x"
  shows "totalSpanCovered xs = int (card (\<Union>r\<in>set (topLevel xs). {startOffset r..<endOffset r}))"
  using assms
proof (induction xs rule: topLevel.induct)
  case 1
  show ?case by (simp add: totalSpanCovered_def)
next
  case (2 r rs)
  let ?D = "dropWhile (nestedIn r) rs"
  let ?U = "\<Union>x\<in>set (topLevel ?D). {startOffset x..<endOffset x}"
  have sD: "sorted_wrt (\<lambda>a b. startOffset a \<le> startOffset b) ?D"
    using "2.prems"(1) by simp
  have pD: "\<forall>x\<in>set ?D. startOffset x < endOffset x"
    using "2.prems"(2) by (auto dest: set_dropWhileD)
  have IH: "totalSpanCovered ?D = int (card ?U)"
    using "2.IH" [OF sD pD] .
  have after: "endOffset r \<le> startOffset x" if "x \<in> set ?D" for x
  proof (cases "?D = []")
    case True
    with that show ?thesis by (simp del: dropWhile_eq_Nil_conv)
  next
    case False
    then have "\<not> nestedIn r (hd ?D)" by (rule hd_dropWhile)
    moreover from sD that False have "startOffset (hd ?D) \<le> startOffset x"
      by (cases ?D) auto
    ultimately show ?thesis by simp
  qed
  have "{startOffset r..<endOffset r} \<inter> ?U = {}"
  proof -
    have "endOffset r \<le> startOffset x" if "x \<in> set (topLevel ?D)" for x
      using that topLevel_subset [of ?D] after by blast
    then show ?thesis by fastforce
  qed
  moreover have "finite ?U" by simp
  ultimately have "card ({startOffset r..<endOffset r} \<union> ?U)
                     = card {startOffset r..<endOffset r} + card ?U"
    by (simp add: card_Un_disjoint)
  moreover have "int (card {startOffset r..<endOffset r}) = endOffset r - startOffset r"
    using "2.prems"(2) by simp
  moreover have "totalSpanCovered (r # rs) = (endOffset r - startOffset r) + totalSpanCovered ?D"
    by (simp add: totalSpanCovered_def)
  moreover have "(\<Union>x\<in>set (topLevel (r # rs)). {startOffset x..<endOffset x})
                   = {startOffset r..<endOffset r} \<union> ?U"
    by simp
  ultimately show ?case using IH by simp
qed

section \<open>The per-resource computation\<close>

lemma isUsed_flatRange [simp]: "isUsed (flatRange c) = (coverage.count c > 0)"
  by (simp add: flatRange_def Let_def)

lemma fst_foldl_forEachFunction:
  "fst (foldl forEachFunction (n, acc) fs) = n + int (length (filter (\<lambda>fn. \<not> functionIsUsed fn) fs))"
  by (induction fs arbitrary: n acc)
     (simp_all add: forEachFunction_def foldl_forEachRange functionIsUsed_def)

lemma fst_collectRanges:
  "fst (collectRanges scr) = int (length (filter (\<lambda>fn. \<not> functionIsUsed fn) (functions scr)))"
  by (simp add: collectRanges_def fst_foldl_forEachFunction)

lemma orZero_Fin [simp]: "orZero (Fin q) = Fin q"
  by (simp add: orZero_def)

section \<open>The reduction of the audit\<close>

lemma map_of_mapSet: "map_of (mapSet kvs k v) = (map_of kvs)(k \<mapsto> v)"
  by (induction kvs) auto

lemma keys_mapSet:
  "map fst (mapSet kvs k v) = (if k \<in> set (map fst kvs) then map fst kvs else map fst kvs @ [k])"
  by (induction kvs) (auto simp: rev_image_eqI)

lemma distinct_mapSet: "distinct (map fst kvs) \<Longrightarrow> distinct (map fst (mapSet kvs k v))"
  by (simp add: keys_mapSet)

lemma jsGreater_irrefl: "\<not> jsGreater a a"
  by (cases a) simp_all

lemma jsGreater_trans: "jsGreater a b \<Longrightarrow> jsGreater b c \<Longrightarrow> jsGreater a c"
  by (cases a; cases b; cases c) simp_all

lemma reduceScript_retain:
  "reduceScript g recs m scr =
     (case find (\<lambda>record. networkRecord.url record = script.url scr) recs of
        None \<Rightarrow> m
      | Some networkRec \<Rightarrow> retain m (computeWaste g scr networkRec))"
  by (simp add: reduceScript_def retain_def Let_def split: option.splits)

lemma foldl_reduceScript:
  "foldl (reduceScript g recs) acc scripts = foldl retain acc (joinedSamples g recs scripts)"
proof (induction scripts arbitrary: acc)
  case Nil
  show ?case by (simp add: joinedSamples_def List.map_filter_simps)
next
  case (Cons scr scripts)
  then show ?case
    by (simp add: joinedSamples_def List.map_filter_simps reduceScript_retain split: option.splits)
qed

lemma resultsMap_retain:
  "resultsMap g arts recs = foldl retain [] (joinedSamples g recs (JsUsage arts))"
  by (simp add: resultsMap_def foldl_reduceScript)

text \<open>The callback keeps the invariant, hence so does the whole reduction.\<close>

lemma dedupInvariant_retain:
  assumes "dedupInvariant m ws"
  shows "dedupInvariant (retain m w) (ws @ [w])"
proof -
  let ?k = "wasteResult.url w"
  from assms have dist: "distinct (map fst m)"
    and dom: "dom (map_of m) = wasteResult.url ` set ws"
    and ent: "\<And>k v. map_of m k = Some v \<Longrightarrow> wasteResult.url v = k \<and> v \<in> set ws
                \<and> (\<forall>w\<in>set ws. wasteResult.url w = k \<longrightarrow> \<not> jsGreater (wastedBytes v) (wastedBytes w))"
    by (simp_all add: dedupInvariant_def)
  show ?thesis
  proof (cases "map_of m ?k")
    case None
    then have r: "retain m w = mapSet m ?k w" by (simp add: retain_def)
    from None dom have new: "\<forall>w'\<in>set ws. wasteResult.url w' \<noteq> ?k"
      by (metis domIff image_eqI)
    show ?thesis
      unfolding dedupInvariant_def r map_of_mapSet
      using dist dom ent new
      by (auto simp: distinct_mapSet jsGreater_irrefl split: if_splits)
  next
    case (Some ex)
    show ?thesis
    proof (cases "jsGreater (wastedBytes ex) (wastedBytes w)")
      case True
      with Some have r: "retain m w = mapSet m ?k w" by (simp add: retain_def)
      have "\<not> jsGreater (wastedBytes w) (wastedBytes w')" if "w' \<in> set ws" "wasteResult.url w' = ?k" for w'
      proof
        assume "jsGreater (wastedBytes w) (wastedBytes w')"
        with True have "jsGreater (wastedBytes ex) (wastedBytes w')" by (rule jsGreater_trans)
        with ent [OF Some] that show False by blast
      qed
      moreover from Some have "?k \<in> dom (map_of m)" by blast
      ultimately show ?thesis
        unfolding dedupInvariant_def r map_of_mapSet
        using dist dom ent
        by (auto simp: distinct_mapSet jsGreater_irrefl split: if_splits)
    next
      case False
      with Some have r: "retain m w = m" by (simp add: retain_def)
      from Some have "?k \<in> dom (map_of m)" by blast
      with dom have dom': "dom (map_of m) = wasteResult.url ` set (ws @ [w])" by auto
      have "\<not> jsGreater (wastedBytes v) (wastedBytes w')"
        if "map_of m k = Some v" and "w' \<in> set (ws @ [w])" and "wasteResult.url w' = k" for k v w'
      proof (cases "w' = w")
        case True
        with that(1,3) Some have "v = ex" by simp
        with False True show ?thesis by simp
      next
        case False
        with that ent [OF that(1)] show ?thesis by auto
      qed
      moreover have "wasteResult.url v = k \<and> v \<in> set (ws @ [w])" if "map_of m k = Some v" for k v
        using ent [OF that] by simp
      ultimately show ?thesis
        unfolding dedupInvariant_def r using dist dom' by blast
    qed
  qed
qed

lemma dedupInvariant_foldl:
  "dedupInvariant m ws \<Longrightarrow> dedupInvariant (foldl retain m ws') (ws @ ws')"
proof (induction ws' arbitrary: m ws)
  case Nil
  then show ?case by simp
next
  case (Cons w ws')
  from Cons.IH [OF dedupInvariant_retain [OF Cons.prems, of w]] show ?case by simp
qed

lemma dedupInvariant_resultsMap:
  "dedupInvariant (resultsMap g arts recs) (joinedSamples g recs (JsUsage arts))"
  using dedupInvariant_foldl [of "[]" "[]"]
  by (simp add: resultsMap_retain dedupInvariant_def)

lemma joinedSamples_append:
  "joinedSamples g recs (xs @ ys) = joinedSamples g recs xs @ joinedSamples g recs ys"
  by (simp add: joinedSamples_def List.map_filter_def)

lemma joinedSamples_unjoined:
  "find (\<lambda>record. networkRecord.url record = script.url scr) recs = None \<Longrightarrow>
     joinedSamples g recs (scr # ys) = joinedSamples g recs ys"
  by (simp add: joinedSamples_def List.map_filter_simps)

lemma audit_results:
  "results (audit g arts recs) =
     filter (\<lambda>item. jsGreater (wastedBytes item) (Fin 2048)) (map snd (resultsMap g arts recs))"
  by (simp add: audit_def IGNORE_THRESHOLD_IN_BYTES_def)

section \<open>Three inputs on which the byte total is not the union length\<close>

text \<open>
  An unused range with a nested range drops the gap that follows it, where the same range
  without the nested one counts the gap as used; and a range nested two levels down that
  reaches beyond its parent is subtracted from the right edge of the outer range.
\<close>

lemma dropped_gap_example:
  "findUsedAndUnused [testRange 0 10 False, testRange 5 8 True, testRange 20 30 True]
     = \<lparr>used = 10, unused = 10\<rparr>
   \<and> findUsedAndUnused [testRange 0 10 False, testRange 20 30 True]
     = \<lparr>used = 20, unused = 10\<rparr>"
  by code_simp

lemma overhang_example:
  "findUsedAndUnused [testRange 0 10 True, testRange 1 3 False, testRange 2 9 True]
     = \<lparr>used = 2, unused = 2\<rparr>"
  by code_simp

section \<open>Claims on the decomposer\<close>

text \<open>
  C1, as amended. The claim as the specification has it, that the used and unused bytes add
  up to the union length of the top-level spans, does not hold: the decomposer counts the
  gap between two disjoint siblings as used, on purpose. What holds is this. Take a sequence
  of ranges in the decomposer's order (ascending by \<^verbatim>\<open>startOffset\<close>, ties by \<^verbatim>\<open>endOffset\<close>
  descending), each with non-negative offsets, \<^verbatim>\<open>endOffset > startOffset\<close> and the derived
  fields of \<^verbatim>\<open>computeWaste\<close>; let it be properly nested (any two ranges are disjoint or one
  contains the other), and let no unused range that has a range nested in it be followed by a
  gap before the next range outside it. Then \<^verbatim>\<open>used + unused\<close> of \<^verbatim>\<open>findUsedAndUnused\<close> is
  the union length of the top-level spans plus the total length of the gaps between
  consecutive top-level spans: no byte is counted twice, whatever the nesting depth.
\<close>

theorem findUsedAndUnused_total:
  assumes "\<forall>r\<in>set rs. derivedFields r \<and> 0 \<le> startOffset r \<and> startOffset r < endOffset r"
    and "sortedRanges rs"
    and "wellNested rs"
    and "noDroppedGap rs"
  shows "used (findUsedAndUnused rs) + unused (findUsedAndUnused rs)
           = totalSpanCovered rs + interSiblingGaps rs"
proof (cases "rs = []")
  case True
  then show ?thesis
    by (simp add: findUsedAndUnused_Nil totalSpanCovered_def interSiblingGaps_def)
next
  case False
  from assms(1,2,3) have "sorted_wrt nests rs"
    by (intro sorted_nests) auto
  from decomposition_hull [OF this assms(1) assms(4) False] covered_hull [OF False]
  show ?thesis by simp
qed

text \<open>
  An instance: a used range \<open>[0,100)\<close> that holds a used range with an unused one
  inside, then an unused range \<open>[60,90)\<close> with a used one inside and a range that starts
  where it ends, followed after a gap of 20 bytes by the unused \<open>[120,130)\<close>. The spans at
  the top level cover 110 bytes and the decomposer reports 130.
\<close>

theorem findUsedAndUnused_total_witness:
  "list_all (\<lambda>r. derivedFields r \<and> 0 \<le> startOffset r \<and> startOffset r < endOffset r)
      [testRange 0 100 True, testRange 10 50 True, testRange 20 30 False,
       testRange 60 90 False, testRange 70 80 True, testRange 90 95 True,
       testRange 120 130 False]
   \<and> sortedRanges
      [testRange 0 100 True, testRange 10 50 True, testRange 20 30 False,
       testRange 60 90 False, testRange 70 80 True, testRange 90 95 True,
       testRange 120 130 False]
   \<and> wellNested
      [testRange 0 100 True, testRange 10 50 True, testRange 20 30 False,
       testRange 60 90 False, testRange 70 80 True, testRange 90 95 True,
       testRange 120 130 False]
   \<and> noDroppedGap
      [testRange 0 100 True, testRange 10 50 True, testRange 20 30 False,
       testRange 60 90 False, testRange 70 80 True, testRange 90 95 True,
       testRange 120 130 False]
   \<and> findUsedAndUnused
      [testRange 0 100 True, testRange 10 50 True, testRange 20 30 False,
       testRange 60 90 False, testRange 70 80 True, testRange 90 95 True,
       testRange 120 130 False]
       = \<lparr>used = 80, unused = 50\<rparr>
   \<and> totalSpanCovered
      [testRange 0 100 True, testRange 10 50 True, testRange 20 30 False,
       testRange 60 90 False, testRange 70 80 True, testRange 90 95 True,
       testRange 120 130 False]
       = 110
   \<and> interSiblingGaps
      [testRange 0 100 True, testRange 10 50 True, testRange 20 30 False,
       testRange 60 90 False, testRange 70 80 True, testRange 90 95 True,
       testRange 120 130 False]
       = 20"
proof -
  let ?rs = "[testRange 0 100 True, testRange 10 50 True, testRange 20 30 False,
       testRange 60 90 False, testRange 70 80 True, testRange 90 95 True,
       testRange 120 130 False]"
  have h1: "\<forall>r\<in>set ?rs. derivedFields r \<and> 0 \<le> startOffset r \<and> startOffset r < endOffset r"
    by code_simp
  have h2: "sortedRanges ?rs" by code_simp
  have h3: "wellNested ?rs" by code_simp
  have h4: "noDroppedGap ?rs" by code_simp
  have e1: "findUsedAndUnused ?rs = \<lparr>used = 80, unused = 50\<rparr>" by code_simp
  have e2: "totalSpanCovered ?rs = 110" by code_simp
  from findUsedAndUnused_total [OF h1 h2 h3 h4] e1 e2 have "interSiblingGaps ?rs = 20"
    by simp
  with h1 h2 h3 h4 e1 e2 show ?thesis unfolding list_all_iff by blast
qed

text \<open>
  The claim without the gaps fails on two disjoint used ranges \<open>[0,10)\<close> and \<open>[20,30)\<close>:
  they satisfy the precondition, their union has 20 bytes, and the decomposer reports 30.
\<close>

theorem findUsedAndUnused_total_counterexample:
  "startOffset (testRange 0 10 True) < endOffset (testRange 0 10 True)
   \<and> startOffset (testRange 20 30 True) < endOffset (testRange 20 30 True)
   \<and> sortedRanges [testRange 0 10 True, testRange 20 30 True]
   \<and> used (findUsedAndUnused [testRange 0 10 True, testRange 20 30 True])
       + unused (findUsedAndUnused [testRange 0 10 True, testRange 20 30 True]) = 30
   \<and> totalSpanCovered [testRange 0 10 True, testRange 20 30 True] = 20"
  by code_simp





text \<open>
  C10. In the branch of \<^verbatim>\<open>findUsedAndUnused\<close> for a used first range with nested ranges, on
  every input in which each range has \<^verbatim>\<open>endOffset > startOffset >= 0\<close> and which is sorted
  ascending by \<^verbatim>\<open>startOffset\<close>: whenever \<^verbatim>\<open>restOfRanges\<close> is not empty, the value
  \<^verbatim>\<open>(restOfRanges[0] && restOfRanges[0].startOffset) || firstRange.endOffset\<close> is
  \<^verbatim>\<open>restOfRanges[0].startOffset\<close>. The fallback for a falsy left side can fire only when
  \<^verbatim>\<open>restOfRanges\<close> is empty, since its first range starts at or after
  \<^verbatim>\<open>firstRange.endOffset\<close>, which is positive.
\<close>

theorem nextStart_of_nonempty_rest:
  assumes "\<forall>r\<in>set (f # s # rs). 0 \<le> startOffset r \<and> startOffset r < endOffset r"
    and "sorted_wrt (\<lambda>a b. startOffset a \<le> startOffset b) (f # s # rs)"
    and "startOffset s < endOffset f"
    and "isUsed f"
    and "restOfRanges = drop (scanEndIndex (f # s # rs) f 1) (f # s # rs)"
    and "restOfRanges \<noteq> []"
  shows "nextStart restOfRanges f = startOffset (restOfRanges ! 0)"
proof -
  have rest: "restOfRanges = dropWhile (nestedIn f) (s # rs)"
    using assms(5) restOfRanges_eq [of f "s # rs"] by simp
  with assms(6) have "\<not> nestedIn f (hd restOfRanges)"
    using hd_dropWhile [of "nestedIn f" "s # rs"] by simp
  moreover from assms(1) have "0 \<le> startOffset f" and "startOffset f < endOffset f"
    by simp_all
  ultimately have "startOffset (hd restOfRanges) \<noteq> 0"
    by simp
  with assms(6) show ?thesis
    by (cases restOfRanges) (simp_all add: nextStart_def)
qed

text \<open>
  An instance: \<open>[0,100)\<close> used with \<open>[10,50)\<close> nested, followed by \<open>[120,130)\<close>.
\<close>

theorem nextStart_of_nonempty_rest_witness:
  "list_all (\<lambda>r. 0 \<le> startOffset r \<and> startOffset r < endOffset r)
      [testRange 0 100 True, testRange 10 50 True, testRange 120 130 True]
   \<and> sorted_wrt (\<lambda>a b. startOffset a \<le> startOffset b)
        [testRange 0 100 True, testRange 10 50 True, testRange 120 130 True]
   \<and> startOffset (testRange 10 50 True) < endOffset (testRange 0 100 True)
   \<and> isUsed (testRange 0 100 True)
   \<and> drop (scanEndIndex [testRange 0 100 True, testRange 10 50 True, testRange 120 130 True]
              (testRange 0 100 True) 1)
          [testRange 0 100 True, testRange 10 50 True, testRange 120 130 True]
       = [testRange 120 130 True]
   \<and> nextStart [testRange 120 130 True] (testRange 0 100 True) = 120"
proof -
  have d: "drop (scanEndIndex [testRange 0 100 True, testRange 10 50 True, testRange 120 130 True]
                   (testRange 0 100 True) 1)
             [testRange 0 100 True, testRange 10 50 True, testRange 120 130 True]
           = [testRange 120 130 True]"
    by (simp add: scanEndIndex_takeWhile testRange_def flatRange_def)
  have h1: "\<forall>r\<in>set [testRange 0 100 True, testRange 10 50 True, testRange 120 130 True].
              0 \<le> startOffset r \<and> startOffset r < endOffset r"
    by (simp add: testRange_def flatRange_def)
  have h2: "sorted_wrt (\<lambda>a b. startOffset a \<le> startOffset b)
              [testRange 0 100 True, testRange 10 50 True, testRange 120 130 True]"
    by (simp add: testRange_def flatRange_def)
  have h3: "startOffset (testRange 10 50 True) < endOffset (testRange 0 100 True)"
    by (simp add: testRange_def flatRange_def)
  have h4: "isUsed (testRange 0 100 True)"
    by (simp add: testRange_def flatRange_def)
  have "nextStart [testRange 120 130 True] (testRange 0 100 True)
          = startOffset ([testRange 120 130 True] ! 0)"
    using nextStart_of_nonempty_rest [OF h1 h2 h3 h4 d [symmetric]] by simp
  with h1 h2 h3 h4 d show ?thesis
    by (simp add: testRange_def flatRange_def)
qed

section \<open>Claims on the per-resource computation\<close>

text \<open>
  C2, as amended. For every script whose ranges are well formed (\<^verbatim>\<open>endOffset > startOffset\<close>,
  not overlapping within a function) and, moreover, properly nested across functions (any
  two ranges of the script are disjoint or one contains the other), and for every network
  record with \<^verbatim>\<open>transferSize >= 0\<close>, the result of \<^verbatim>\<open>computeWaste\<close> has
  \<^verbatim>\<open>wastedBytes <= totalBytes\<close> and \<^verbatim>\<open>0 <= wastedPercent <= 100\<close>.
\<close>

theorem computeWaste_bounds:
  assumes "wellFormedScript scr" and "wellNestedScript scr" and "0 \<le> transferSize rec"
  shows "\<exists>w p. wastedBytes (computeWaste g scr rec) = Fin w
               \<and> w \<le> of_int (totalBytes (computeWaste g scr rec))
               \<and> wastedPercent (computeWaste g scr rec) = Fin p \<and> 0 \<le> p \<and> p \<le> 100"
proof -
  from assms(1) have "\<forall>c\<in>set (allRanges scr). wellFormedRange c"
    by (auto simp: wellFormedScript_def allRanges_def)
  from decomposed_nonneg [OF this assms(2)]
  obtain q where q: "orZero (jsDivide (unused (decomposed scr))
                        (unused (decomposed scr) + used (decomposed scr))) = Fin q"
    and q0: "0 \<le> q" and q1: "q \<le> 1"
    using wastedRatio_unit by blast
  let ?t = "of_int (transferSize rec) :: rat"
  from assms(3) q0 q1 have tq: "0 \<le> ?t * q" "?t * q \<le> ?t"
    by (simp_all add: mult_left_le)
  have "\<exists>w. Math_round (jsTimes (transferSize rec) (Fin q)) = Fin w \<and> w \<le> ?t"
  proof (cases "isDouble (transferSize rec)")
    case True
    then have "toDouble ?t = Fin ?t" by (simp add: isDouble_def)
    from toDouble_le [OF tq this] obtain v
      where v: "toDouble (?t * q) = Fin v" "v \<le> ?t" by blast
    from v(2) have "\<lfloor>v + 1 / 2\<rfloor> \<le> transferSize rec"
      by (simp add: floor_le_iff)
    then have "(of_int \<lfloor>v + 1 / 2\<rfloor> :: rat) \<le> ?t" by simp
    with True v(1) show ?thesis by (simp add: jsTimes_def Math_round_def)
  next
    case False
    from tq(2) have "\<lfloor>?t * q + 1 / 2\<rfloor> \<le> transferSize rec"
      by (simp add: floor_le_iff)
    then have "(of_int \<lfloor>?t * q + 1 / 2\<rfloor> :: rat) \<le> ?t" by simp
    with False show ?thesis by (simp add: jsTimes_def Math_round_def)
  qed
  moreover have "\<exists>p. jsTimes 100 (Fin q) = Fin p \<and> 0 \<le> p \<and> p \<le> 100"
  proof -
    from q0 q1 have "0 \<le> 100 * q" "100 * q \<le> 100" by simp_all
    moreover from isDouble_hundred have "toDouble 100 = Fin 100" by (simp add: isDouble_def)
    ultimately obtain v where "toDouble (100 * q) = Fin v" "0 \<le> v" "v \<le> 100"
      using toDouble_le by blast
    with isDouble_hundred show ?thesis by (simp add: jsTimes_def)
  qed
  ultimately show ?thesis
    by (auto simp: computeWaste_fields q)
qed

text \<open>
  An instance: the script of the unit test of \<^verbatim>\<open>computeWaste\<close> with a transfer size of 1000.
\<close>

theorem computeWaste_bounds_witness:
  "wellFormedScript scriptUsage \<and> wellNestedScript scriptUsage
   \<and> 0 \<le> transferSize (generateRecord ''myscript.js'' 1000)
   \<and> wastedBytes (computeWaste id scriptUsage (generateRecord ''myscript.js'' 1000)) = Fin 650
   \<and> totalBytes (computeWaste id scriptUsage (generateRecord ''myscript.js'' 1000)) = 1000
   \<and> wastedPercent (computeWaste id scriptUsage (generateRecord ''myscript.js'' 1000)) = Fin 65
   \<and> (\<exists>w p. wastedBytes (computeWaste id scriptUsage (generateRecord ''myscript.js'' 1000)) = Fin w
          \<and> w \<le> of_int (totalBytes (computeWaste id scriptUsage (generateRecord ''myscript.js'' 1000)))
          \<and> wastedPercent (computeWaste id scriptUsage (generateRecord ''myscript.js'' 1000)) = Fin p
          \<and> 0 \<le> p \<and> p \<le> 100)"
proof -
  have h1: "wellFormedScript scriptUsage" by code_simp
  have h2: "wellNestedScript scriptUsage" by code_simp
  have h3: "0 \<le> transferSize (generateRecord ''myscript.js'' 1000)"
    by (simp add: generateRecord_def)
  have e1: "wastedBytes (computeWaste id scriptUsage (generateRecord ''myscript.js'' 1000)) = Fin 650"
    by code_simp
  have e2: "totalBytes (computeWaste id scriptUsage (generateRecord ''myscript.js'' 1000)) = 1000"
    by code_simp
  have e3: "wastedPercent (computeWaste id scriptUsage (generateRecord ''myscript.js'' 1000)) = Fin 65"
    by code_simp
  from computeWaste_bounds [OF h1 h2 h3, of id] h1 h2 h3 e1 e2 e3 show ?thesis
    by blast
qed

text \<open>
  Without the nesting across functions the bounds fail: a used \<open>[0,10)\<close> in one function and
  an unused \<open>[5,20)\<close> in another are well formed, and \<^verbatim>\<open>computeWaste\<close> reports 1500 wasted
  bytes of 1000 and 150 percent.
\<close>

theorem computeWaste_bounds_counterexample:
  "wellFormedScript (generateScript ''a.js'' [(0, 10, True), (5, 20, False)])
   \<and> 0 \<le> transferSize (generateRecord ''a.js'' 1000)
   \<and> totalBytes (computeWaste id (generateScript ''a.js'' [(0, 10, True), (5, 20, False)])
                    (generateRecord ''a.js'' 1000)) = 1000
   \<and> wastedBytes (computeWaste id (generateScript ''a.js'' [(0, 10, True), (5, 20, False)])
                    (generateRecord ''a.js'' 1000)) = Fin 1500
   \<and> wastedPercent (computeWaste id (generateScript ''a.js'' [(0, 10, True), (5, 20, False)])
                    (generateRecord ''a.js'' 1000)) = Fin 150"
  by code_simp

text \<open>
  C5, as amended. For every script and network record for which the decomposed totals have
  \<^verbatim>\<open>used + unused > 0\<close>, \<^verbatim>\<open>computeWaste\<close> returns \<^verbatim>\<open>wastedPercent = 100 * wastedRatio\<close> and
  \<^verbatim>\<open>wastedBytes = Math.round(transferSize * wastedRatio)\<close> with
  \<^verbatim>\<open>wastedRatio = unused / (unused + used)\<close>, where the division and the two products are
  operations on doubles, each rounded to the nearest double, so that the results can differ
  from those of the exact formula. Totals of 35 percent used and 65 percent unused with a
  transfer size of 1000 give \<^verbatim>\<open>wastedPercent = 65\<close> and \<^verbatim>\<open>wastedBytes = 650\<close> exactly.
\<close>

theorem computeWaste_ratio:
  assumes "used (decomposed scr) + unused (decomposed scr) > 0"
  shows "wastedPercent (computeWaste g scr rec)
           = jsTimes 100 (jsDivide (unused (decomposed scr))
                                   (unused (decomposed scr) + used (decomposed scr)))
       \<and> wastedBytes (computeWaste g scr rec)
           = Math_round (jsTimes (transferSize rec)
               (jsDivide (unused (decomposed scr))
                         (unused (decomposed scr) + used (decomposed scr))))
       \<and> (100 * unused (decomposed scr) = 65 * (unused (decomposed scr) + used (decomposed scr))
            \<and> transferSize rec = 1000
          \<longrightarrow> wastedPercent (computeWaste g scr rec) = Fin 65
              \<and> wastedBytes (computeWaste g scr rec) = Fin 650)"
proof -
  let ?u = "unused (decomposed scr)" and ?t = "unused (decomposed scr) + used (decomposed scr)"
  from assms have t: "?t \<noteq> 0" by simp
  then have "jsDivide ?u ?t \<noteq> NaN"
    by (simp add: jsDivide_def toDouble_not_NaN)
  then have ratio: "orZero (jsDivide ?u ?t) = jsDivide ?u ?t"
    by (auto simp: orZero_def)
  have percent: "wastedPercent (computeWaste g scr rec) = jsTimes 100 (jsDivide ?u ?t)"
    by (simp add: computeWaste_fields ratio)
  have bytes: "wastedBytes (computeWaste g scr rec)
                 = Math_round (jsTimes (transferSize rec) (jsDivide ?u ?t))"
    by (simp add: computeWaste_fields ratio)
  have "wastedPercent (computeWaste g scr rec) = Fin 65
        \<and> wastedBytes (computeWaste g scr rec) = Fin 650"
    if "100 * ?u = 65 * ?t" and "transferSize rec = 1000"
  proof -
    from that(1) have "(of_int (100 * ?u) :: rat) = of_int (65 * ?t)" by simp
    then have "100 * (of_int ?u :: rat) = 65 * of_int ?t" by simp
    with t have q: "(of_int ?u / of_int ?t :: rat) = 13 / 20" by (simp add: field_simps)
    have d: "toDouble (13 / 20) = Fin (5854679515581645 / 9007199254740992)"
      by code_simp
    have p1: "jsTimes 100 (Fin (5854679515581645 / 9007199254740992)) = Fin 65"
      and b1: "Math_round (jsTimes 1000 (Fin (5854679515581645 / 9007199254740992))) = Fin 650"
      and p2: "jsTimes 100 (Fin (13 / 20)) = Fin 65"
      and b2: "Math_round (jsTimes 1000 (Fin (13 / 20))) = Fin 650"
      by code_simp+
    from t have "jsDivide ?u ?t = Fin (5854679515581645 / 9007199254740992)
                 \<or> jsDivide ?u ?t = Fin (13 / 20)"
      unfolding jsDivide_def q d by simp
    then show ?thesis
      unfolding percent bytes that(2) using p1 b1 p2 b2 by auto
  qed
  with percent bytes show ?thesis by blast
qed

text \<open>
  An instance: the script of the unit test, whose totals are 70 used and 130 unused.
\<close>

theorem computeWaste_ratio_witness:
  "used (decomposed scriptUsage) + unused (decomposed scriptUsage) > 0
   \<and> 100 * unused (decomposed scriptUsage)
       = 65 * (unused (decomposed scriptUsage) + used (decomposed scriptUsage))
   \<and> transferSize (generateRecord ''myscript.js'' 1000) = 1000
   \<and> wastedPercent (computeWaste id scriptUsage (generateRecord ''myscript.js'' 1000)) = Fin 65
   \<and> wastedBytes (computeWaste id scriptUsage (generateRecord ''myscript.js'' 1000)) = Fin 650"
proof -
  have d: "decomposed scriptUsage = \<lparr>used = 70, unused = 130\<rparr>" by code_simp
  have h: "used (decomposed scriptUsage) + unused (decomposed scriptUsage) > 0"
    by (simp add: d)
  have r: "100 * unused (decomposed scriptUsage)
             = 65 * (unused (decomposed scriptUsage) + used (decomposed scriptUsage))"
    by (simp add: d)
  have t: "transferSize (generateRecord ''myscript.js'' 1000) = 1000"
    by (simp add: generateRecord_def)
  from computeWaste_ratio [OF h, of id "generateRecord ''myscript.js'' 1000"] h r t
  show ?thesis by blast
qed

text \<open>
  The exact formula fails on totals of 3 used and 7 unused with a transfer size of 45: the
  double nearest to \<open>7/10\<close> is below it, so is the product with 45, whose exact value
  \<open>31.5\<close> rounds to 32, and \<^verbatim>\<open>computeWaste\<close> returns 31.
\<close>

theorem computeWaste_ratio_counterexample:
  "used (decomposed (generateScript ''d.js'' [(0, 3, True), (3, 10, False)])) = 3
   \<and> unused (decomposed (generateScript ''d.js'' [(0, 3, True), (3, 10, False)])) = 7
   \<and> wastedBytes (computeWaste id (generateScript ''d.js'' [(0, 3, True), (3, 10, False)])
                    (generateRecord ''d.js'' 45)) = Fin 31
   \<and> round (of_int 45 * (of_int 7 / of_int (7 + 3)) :: rat) = 32"
proof -
  have "\<lfloor>32 :: rat\<rfloor> = 32" by simp
  then have "round (of_int 45 * (of_int 7 / of_int (7 + 3)) :: rat) = 32"
    by (simp add: round_def)
  moreover have
    "used (decomposed (generateScript ''d.js'' [(0, 3, True), (3, 10, False)])) = 3
     \<and> unused (decomposed (generateScript ''d.js'' [(0, 3, True), (3, 10, False)])) = 7
     \<and> wastedBytes (computeWaste id (generateScript ''d.js'' [(0, 3, True), (3, 10, False)])
                      (generateRecord ''d.js'' 45)) = Fin 31"
    by code_simp
  ultimately show ?thesis by blast
qed

text \<open>
  C6, as amended. For every script whose decomposed totals are \<^verbatim>\<open>used = 0\<close> and
  \<^verbatim>\<open>unused = 0\<close> (a script without ranges, for one), \<^verbatim>\<open>computeWaste\<close> takes the ratio to be
  0, where the division yields \<^verbatim>\<open>NaN\<close>, and the result has \<^verbatim>\<open>wastedBytes = 0\<close> and
  \<^verbatim>\<open>wastedPercent = 0\<close> for any transfer size.
\<close>

theorem computeWaste_degenerate:
  assumes "used (decomposed scr) = 0" and "unused (decomposed scr) = 0"
  shows "orZero (jsDivide (unused (decomposed scr)) (unused (decomposed scr) + used (decomposed scr)))
           = Fin 0
       \<and> wastedBytes (computeWaste g scr rec) = Fin 0
       \<and> wastedPercent (computeWaste g scr rec) = Fin 0"
proof -
  have f: "\<lfloor>1 / 2 :: rat\<rfloor> = 0"
    by (rule floor_unique) simp_all
  have z: "jsTimes k (Fin 0) = Fin 0" for k
    by (simp add: jsTimes_def toDouble_def)
  from assms have "orZero (jsDivide (unused (decomposed scr))
                     (unused (decomposed scr) + used (decomposed scr))) = Fin 0"
    by (simp add: jsDivide_def orZero_def)
  then show ?thesis
    by (simp add: computeWaste_fields z Math_round_def f)
qed

text \<open>
  An instance: a script without functions.
\<close>

theorem computeWaste_degenerate_witness:
  "used (decomposed (generateScript ''empty.js'' [])) = 0
   \<and> unused (decomposed (generateScript ''empty.js'' [])) = 0
   \<and> wastedBytes (computeWaste id (generateScript ''empty.js'' []) (generateRecord ''empty.js'' 1000))
       = Fin 0
   \<and> wastedPercent (computeWaste id (generateScript ''empty.js'' []) (generateRecord ''empty.js'' 1000))
       = Fin 0"
proof -
  have d: "decomposed (generateScript ''empty.js'' []) = \<lparr>used = 0, unused = 0\<rparr>" by code_simp
  then have h: "used (decomposed (generateScript ''empty.js'' [])) = 0"
    "unused (decomposed (generateScript ''empty.js'' [])) = 0"
    by simp_all
  from computeWaste_degenerate [OF h, of id "generateRecord ''empty.js'' 1000"] h show ?thesis
    by simp
qed

text \<open>
  With \<^verbatim>\<open>used + unused = 0\<close> alone the claim fails: for the used \<open>[0,10)\<close>, the unused
  \<open>[1,3)\<close> and the unused \<open>[2,13)\<close>, one function each, the totals are \<open>-2\<close> used and
  \<open>2\<close> unused, the division yields \<^verbatim>\<open>Infinity\<close>, which is truthy, and both
  \<^verbatim>\<open>wastedPercent\<close> and \<^verbatim>\<open>wastedBytes\<close> are \<^verbatim>\<open>Infinity\<close>.
\<close>

theorem computeWaste_degenerate_counterexample:
  "used (decomposed (generateScript ''a.js'' [(0, 10, True), (1, 3, False), (2, 13, False)]))
     + unused (decomposed (generateScript ''a.js'' [(0, 10, True), (1, 3, False), (2, 13, False)])) = 0
   \<and> wastedPercent (computeWaste id
         (generateScript ''a.js'' [(0, 10, True), (1, 3, False), (2, 13, False)])
         (generateRecord ''a.js'' 1000)) = PosInf
   \<and> wastedBytes (computeWaste id
         (generateScript ''a.js'' [(0, 10, True), (1, 3, False), (2, 13, False)])
         (generateRecord ''a.js'' 1000)) = PosInf"
  by code_simp




section \<open>Claims on the aggregation\<close>

text \<open>
  C7, as amended. In \<^verbatim>\<open>audit_\<close>, the map of the reduction holds exactly one result for each
  url (display name) of a script that has a network record; that result is one of the
  samples computed for this url, and no sample for this url has a strictly smaller
  \<^verbatim>\<open>wastedBytes\<close>. The returned results are the values of the map whose \<^verbatim>\<open>wastedBytes\<close>
  exceeds 2048, so they hold at most one result for a url, and none when the smallest sample
  does not exceed the threshold. A script without a network record whose url is equal to
  the script's url contributes nothing: the audit with and without it is the same.
\<close>

theorem audit_deduplicates:
  "distinct (map wasteResult.url (map snd (resultsMap g arts recs)))
   \<and> wasteResult.url ` set (map snd (resultsMap g arts recs))
       = wasteResult.url ` set (joinedSamples g recs (JsUsage arts))
   \<and> (\<forall>v\<in>set (map snd (resultsMap g arts recs)).
         v \<in> set (joinedSamples g recs (JsUsage arts))
         \<and> (\<forall>w\<in>set (joinedSamples g recs (JsUsage arts)).
               wasteResult.url w = wasteResult.url v
               \<longrightarrow> \<not> jsGreater (wastedBytes v) (wastedBytes w)))
   \<and> results (audit g arts recs)
       = filter (\<lambda>item. jsGreater (wastedBytes item) (Fin 2048)) (map snd (resultsMap g arts recs))
   \<and> (find (\<lambda>record. networkRecord.url record = script.url scr) recs = None
        \<longrightarrow> audit g \<lparr>JsUsage = xs @ scr # ys\<rparr> recs = audit g \<lparr>JsUsage = xs @ ys\<rparr> recs)"
proof -
  let ?m = "resultsMap g arts recs" and ?ws = "joinedSamples g recs (JsUsage arts)"
  have inv: "dedupInvariant ?m ?ws" by (rule dedupInvariant_resultsMap)
  then have dist: "distinct (map fst ?m)"
    and dom: "dom (map_of ?m) = wasteResult.url ` set ?ws"
    and ent: "\<And>k v. map_of ?m k = Some v \<Longrightarrow> wasteResult.url v = k \<and> v \<in> set ?ws
                \<and> (\<forall>w\<in>set ?ws. wasteResult.url w = k \<longrightarrow> \<not> jsGreater (wastedBytes v) (wastedBytes w))"
    by (simp_all add: dedupInvariant_def)
  have key: "wasteResult.url v = k \<and> v \<in> set ?ws
             \<and> (\<forall>w\<in>set ?ws. wasteResult.url w = k \<longrightarrow> \<not> jsGreater (wastedBytes v) (wastedBytes w))"
    if "(k, v) \<in> set ?m" for k v
    using ent [of k v] that dist by simp
  then have "map (wasteResult.url \<circ> snd) ?m = map fst ?m"
    by (intro map_cong refl) auto
  then have "map wasteResult.url (map snd ?m) = map fst ?m"
    by (simp only: map_map)
  with dist have c1: "distinct (map wasteResult.url (map snd ?m))"
    by (simp only:)
  have "wasteResult.url ` set (map snd ?m) = fst ` set ?m"
    using key by force
  also have "\<dots> = dom (map_of ?m)" by (simp add: dom_map_of_conv_image_fst)
  finally have c2: "wasteResult.url ` set (map snd ?m) = wasteResult.url ` set ?ws"
    using dom by simp
  have c3: "\<forall>v\<in>set (map snd ?m). v \<in> set ?ws
         \<and> (\<forall>w\<in>set ?ws. wasteResult.url w = wasteResult.url v
               \<longrightarrow> \<not> jsGreater (wastedBytes v) (wastedBytes w))"
    using key by fastforce
  have c5: "audit g \<lparr>JsUsage = xs @ scr # ys\<rparr> recs = audit g \<lparr>JsUsage = xs @ ys\<rparr> recs"
    if "find (\<lambda>record. networkRecord.url record = script.url scr) recs = None"
  proof -
    from that have "joinedSamples g recs (xs @ scr # ys) = joinedSamples g recs (xs @ ys)"
      by (simp add: joinedSamples_append joinedSamples_unjoined)
    then show ?thesis by (simp add: audit_def resultsMap_retain)
  qed
  from c1 c2 c3 c5 audit_results [of g arts recs] show ?thesis by blast
qed

text \<open>
  An instance, the unit test of \<^verbatim>\<open>audit_\<close>: two samples of script A, two of script B, of
  which the one with 25000 wasted bytes is kept, and a script C without a record.
\<close>

theorem audit_deduplicates_witness:
  "find (\<lambda>record. networkRecord.url record
                    = script.url (generateScript ''scriptC.js'' [(0, 100, False)]))
      [recordA, recordB] = None
   \<and> audit id \<lparr>JsUsage = [scriptA, scriptADuplicate]
                    @ generateScript ''scriptC.js'' [(0, 100, False)] # [scriptB, scriptBDuplicate]\<rparr>
         [recordA, recordB]
       = audit id \<lparr>JsUsage = [scriptA, scriptADuplicate] @ [scriptB, scriptBDuplicate]\<rparr>
           [recordA, recordB]
   \<and> map snd (resultsMap id \<lparr>JsUsage = [scriptA, scriptADuplicate] @ [scriptB, scriptBDuplicate]\<rparr>
                  [recordA, recordB])
       = [\<lparr>url = ''https://google.com/scriptA.js'', totalBytes = 35000, wastedBytes = Fin 0,
           wastedPercent = Fin 0, numUnused = 0\<rparr>,
          \<lparr>url = ''https://google.com/scriptB.js'', totalBytes = 50000, wastedBytes = Fin 25000,
           wastedPercent = Fin 50, numUnused = 1\<rparr>]
   \<and> results (audit id \<lparr>JsUsage = [scriptA, scriptADuplicate] @ [scriptB, scriptBDuplicate]\<rparr>
                 [recordA, recordB])
       = [\<lparr>url = ''https://google.com/scriptB.js'', totalBytes = 50000, wastedBytes = Fin 25000,
           wastedPercent = Fin 50, numUnused = 1\<rparr>]"
proof -
  let ?arts = "\<lparr>JsUsage = [scriptA, scriptADuplicate] @ [scriptB, scriptBDuplicate]\<rparr>"
  have h: "find (\<lambda>record. networkRecord.url record
                    = script.url (generateScript ''scriptC.js'' [(0, 100, False)]))
             [recordA, recordB] = None"
    by code_simp
  have m: "map snd (resultsMap id ?arts [recordA, recordB])
       = [\<lparr>url = ''https://google.com/scriptA.js'', totalBytes = 35000, wastedBytes = Fin 0,
           wastedPercent = Fin 0, numUnused = 0\<rparr>,
          \<lparr>url = ''https://google.com/scriptB.js'', totalBytes = 50000, wastedBytes = Fin 25000,
           wastedPercent = Fin 50, numUnused = 1\<rparr>]"
    by code_simp
  note t = audit_deduplicates [of id ?arts "[recordA, recordB]"
      "generateScript ''scriptC.js'' [(0, 100, False)]" "[scriptA, scriptADuplicate]"
      "[scriptB, scriptBDuplicate]"]
  from t h have "audit id \<lparr>JsUsage = [scriptA, scriptADuplicate]
                    @ generateScript ''scriptC.js'' [(0, 100, False)] # [scriptB, scriptBDuplicate]\<rparr>
         [recordA, recordB] = audit id ?arts [recordA, recordB]"
    by blast
  moreover from t have "results (audit id ?arts [recordA, recordB])
       = filter (\<lambda>item. jsGreater (wastedBytes item) (Fin 2048))
           (map snd (resultsMap id ?arts [recordA, recordB]))"
    by blast
  then have "results (audit id ?arts [recordA, recordB])
       = [\<lparr>url = ''https://google.com/scriptB.js'', totalBytes = 50000, wastedBytes = Fin 25000,
           wastedPercent = Fin 50, numUnused = 1\<rparr>]"
    unfolding m by simp
  ultimately show ?thesis using h m by blast
qed

text \<open>
  The output need not retain a result for a url whose samples differ: with a transfer size
  of 1000 the two samples of script B have 500 and 1000 wasted bytes, and the results are
  empty.
\<close>

theorem audit_deduplicates_counterexample:
  "script.url scriptB = script.url scriptBDuplicate
   \<and> find (\<lambda>record. networkRecord.url record = script.url scriptB)
        [generateRecord ''scriptB.js'' 1000] = Some (generateRecord ''scriptB.js'' 1000)
   \<and> wastedBytes (computeWaste id scriptB (generateRecord ''scriptB.js'' 1000)) = Fin 500
   \<and> wastedBytes (computeWaste id scriptBDuplicate (generateRecord ''scriptB.js'' 1000)) = Fin 1000
   \<and> results (audit id \<lparr>JsUsage = [scriptB, scriptBDuplicate]\<rparr>
                 [generateRecord ''scriptB.js'' 1000]) = []"
  by code_simp

text \<open>
  C8. For every result in the deduplicated map, \<^verbatim>\<open>audit_\<close> includes it in the returned
  results if and only if its \<^verbatim>\<open>wastedBytes\<close> is strictly greater than the ignore threshold of
  2048 bytes: a result with \<^verbatim>\<open>wastedBytes\<close> equal to the threshold is excluded, one with the
  threshold plus one is included.
\<close>

theorem audit_threshold:
  "IGNORE_THRESHOLD_IN_BYTES = 2048
   \<and> (\<forall>item\<in>set (map snd (resultsMap g arts recs)).
         (item \<in> set (results (audit g arts recs))
            \<longleftrightarrow> jsGreater (wastedBytes item) (Fin (of_int IGNORE_THRESHOLD_IN_BYTES)))
         \<and> (wastedBytes item = Fin (of_int IGNORE_THRESHOLD_IN_BYTES)
              \<longrightarrow> item \<notin> set (results (audit g arts recs)))
         \<and> (wastedBytes item = Fin (of_int (IGNORE_THRESHOLD_IN_BYTES + 1))
              \<longrightarrow> item \<in> set (results (audit g arts recs))))"
  by (auto simp: audit_def IGNORE_THRESHOLD_IN_BYTES_def)

text \<open>
  An instance: two scripts that are unused throughout, with transfer sizes 2048 and 2049.
\<close>

theorem audit_threshold_witness:
  "map snd (resultsMap id
       \<lparr>JsUsage = [generateScript ''x.js'' [(0, 100, False)], generateScript ''y.js'' [(0, 100, False)]]\<rparr>
       [generateRecord ''x.js'' 2048, generateRecord ''y.js'' 2049])
     = [\<lparr>url = ''https://google.com/x.js'', totalBytes = 2048, wastedBytes = Fin 2048,
         wastedPercent = Fin 100, numUnused = 1\<rparr>,
        \<lparr>url = ''https://google.com/y.js'', totalBytes = 2049, wastedBytes = Fin 2049,
         wastedPercent = Fin 100, numUnused = 1\<rparr>]
   \<and> \<lparr>url = ''https://google.com/x.js'', totalBytes = 2048, wastedBytes = Fin 2048,
         wastedPercent = Fin 100, numUnused = 1\<rparr>
       \<notin> set (results (audit id
           \<lparr>JsUsage = [generateScript ''x.js'' [(0, 100, False)], generateScript ''y.js'' [(0, 100, False)]]\<rparr>
           [generateRecord ''x.js'' 2048, generateRecord ''y.js'' 2049]))
   \<and> \<lparr>url = ''https://google.com/y.js'', totalBytes = 2049, wastedBytes = Fin 2049,
         wastedPercent = Fin 100, numUnused = 1\<rparr>
       \<in> set (results (audit id
           \<lparr>JsUsage = [generateScript ''x.js'' [(0, 100, False)], generateScript ''y.js'' [(0, 100, False)]]\<rparr>
           [generateRecord ''x.js'' 2048, generateRecord ''y.js'' 2049]))"
proof -
  let ?arts = "\<lparr>JsUsage = [generateScript ''x.js'' [(0, 100, False)],
                          generateScript ''y.js'' [(0, 100, False)]]\<rparr>"
  let ?recs = "[generateRecord ''x.js'' 2048, generateRecord ''y.js'' 2049]"
  let ?x = "\<lparr>url = ''https://google.com/x.js'', totalBytes = 2048, wastedBytes = Fin 2048,
             wastedPercent = Fin 100, numUnused = 1\<rparr>"
  let ?y = "\<lparr>url = ''https://google.com/y.js'', totalBytes = 2049, wastedBytes = Fin 2049,
             wastedPercent = Fin 100, numUnused = 1\<rparr>"
  have m: "map snd (resultsMap id ?arts ?recs) = [?x, ?y]"
    by code_simp
  from audit_threshold [of id ?arts ?recs]
  have "\<forall>item\<in>set [?x, ?y].
          (wastedBytes item = Fin (of_int IGNORE_THRESHOLD_IN_BYTES)
              \<longrightarrow> item \<notin> set (results (audit id ?arts ?recs)))
        \<and> (wastedBytes item = Fin (of_int (IGNORE_THRESHOLD_IN_BYTES + 1))
              \<longrightarrow> item \<in> set (results (audit id ?arts ?recs)))"
    unfolding m by blast
  then have "?x \<notin> set (results (audit id ?arts ?recs))" "?y \<in> set (results (audit id ?arts ?recs))"
    by (simp_all add: IGNORE_THRESHOLD_IN_BYTES_def)
  with m show ?thesis by blast
qed

end
